theory Spec2Isabelle
  imports Complex_Main "HOL-Library.Sublist" "HOL-Library.Log_Nat"
begin

section \<open>Shannon-Fano coder: the model\<close>

text \<open>
  The program (\<^verbatim>\<open>main.cpp\<close>) is one class, \<^verbatim>\<open>Coder\<close>, with the members
  \<^verbatim>\<open>tsize\<close>, \<^verbatim>\<open>ptable\<close> and \<^verbatim>\<open>codes\<close> and the methods \<^verbatim>\<open>Encode\<close>,
  \<^verbatim>\<open>Decode\<close> and \<^verbatim>\<open>EncShannon\<close>. Each method is a function here that takes the
  members it reads and returns the members it writes.

  \<^item> \<^verbatim>\<open>float\<close> is the type \<open>float\<close> below: IEEE 754 binary32 values, every operation
    rounded to the nearest value with 24 significant bits, ties to even. \<^verbatim>\<open>EncShannon\<close>
    is written for any type \<open>'p\<close> with the operations it uses (\<open>0\<close>, \<open>1\<close>, \<open>+\<close>, \<open>*\<close>,
    \<open>/\<close>, \<open>\<le>\<close>, \<open><\<close>), and \<^verbatim>\<open>Encode\<close> runs it on \<open>float\<close>. What is proved for every
    \<open>'p\<close> uses no law of arithmetic; what needs arithmetic is proved for \<open>float\<close>, from
    the laws of rounding.
  \<^item> \<^verbatim>\<open>int\<close> indexes and counts are \<open>int\<close> and \<open>nat\<close>: the inputs considered are
    shorter than \<open>2^31\<close> bytes, so that no counter overflows. (An index could only
    overflow in a recursion that has already gone through \<open>2^31\<close> calls.)
  \<^item> \<^verbatim>\<open>std::map<char, V>\<close> is the list of its entries in key order, the order in which
    an iterator visits them.
  \<^item> \<^verbatim>\<open>EncShannon\<close> is recursive and the C++ stack is finite: the model takes the depth
    of recursion available as its first argument and returns \<open>None\<close> when a call needs
    more. A call that returns \<open>None\<close> for every depth is one that never returns.
  \<^item> The text of the output file is not modelled: an artifact is the table size, the
    rows and the bit characters that \<^verbatim>\<open>fprintf\<close> writes and \<^verbatim>\<open>fscanf\<close>/\<^verbatim>\<open>fgetc\<close>
    read back. The copy of the output that \<^verbatim>\<open>printf\<close> sends to the console is left out,
    and so is the bound of 128 bytes on the buffer that \<^verbatim>\<open>Decode\<close> reads a codeword
    into.
\<close>

subsection \<open>\<^verbatim>\<open>struct pnode\<close>\<close>

record 'p pnode =
  ch :: char
  p :: 'p

subsection \<open>\<^verbatim>\<open>std::map<char, V>\<close>\<close>

text \<open>
  Keys are compared as \<^verbatim>\<open>char\<close> values, and \<^verbatim>\<open>char\<close> is signed on the x86 targets of
  the program: the bytes from 128 on are negative and come first.
\<close>

definition schar :: "char \<Rightarrow> int" where
  "schar c = (let n = of_char c in if n < 128 then n else n - 256)"

text \<open>\<^verbatim>\<open>m[k] = v\<close>: overwrite the entry of \<open>k\<close>, or insert one at its place in key order.\<close>

fun map_put :: "char \<Rightarrow> 'v \<Rightarrow> (char \<times> 'v) list \<Rightarrow> (char \<times> 'v) list" where
  "map_put k v [] = [(k, v)]"
| "map_put k v ((k', v') # m) =
     (if k = k' then (k, v) # m
      else if schar k < schar k' then (k, v) # (k', v') # m
      else (k', v') # map_put k v m)"

text \<open>
  \<^verbatim>\<open>m[k]\<close> read: the value of \<open>k\<close>, or the default value \<open>d\<close> of the value type when \<open>k\<close>
  has no entry. (C++ also inserts the default entry then; the program only ever reads its
  maps through \<^verbatim>\<open>operator[]\<close> after such a read, so the insertion cannot be observed.)
\<close>

definition map_at :: "'v \<Rightarrow> (char \<times> 'v) list \<Rightarrow> char \<Rightarrow> 'v" where
  "map_at d m k = (case map_of m k of None \<Rightarrow> d | Some v \<Rightarrow> v)"

type_synonym codes = "(char \<times> string) list"

text \<open>\<^verbatim>\<open>codes[c] += b\<close>\<close>

definition codes_append :: "char \<Rightarrow> char \<Rightarrow> codes \<Rightarrow> codes" where
  "codes_append c b codes = map_put c (map_at [] codes c @ [b]) codes"

subsection \<open>\<^verbatim>\<open>pnode_compare\<close> and \<^verbatim>\<open>qsort\<close>\<close>

definition pnode_compare :: "('p::ord) pnode \<Rightarrow> 'p pnode \<Rightarrow> int" where
  "pnode_compare a b = (if p a < p b then 1 else if p a > p b then -1 else 0)"

text \<open>
  \<^verbatim>\<open>qsort\<close> is the C library's; the standard fixes neither its algorithm nor the order in
  which it leaves elements that compare equal. The model is an insertion sort driven by
  the comparison function.
\<close>

fun qsort_insert :: "('a \<Rightarrow> 'a \<Rightarrow> int) \<Rightarrow> 'a \<Rightarrow> 'a list \<Rightarrow> 'a list" where
  "qsort_insert cmp x [] = [x]"
| "qsort_insert cmp x (y # ys) =
     (if cmp x y \<le> 0 then x # y # ys else y # qsort_insert cmp x ys)"

fun qsort :: "('a \<Rightarrow> 'a \<Rightarrow> int) \<Rightarrow> 'a list \<Rightarrow> 'a list" where
  "qsort cmp [] = []"
| "qsort cmp (x # xs) = qsort_insert cmp x (qsort cmp xs)"

subsection \<open>\<^verbatim>\<open>float\<close>\<close>

text \<open>
  A binary32 value other than zero is \<open>m * 2^(e - 23)\<close> with a significand
  \<open>2^23 \<le> \<bar>m\<bar> < 2^24\<close>. The values of the program are counts below \<open>2^31\<close>, their
  quotients, and sums and halves of these: all are zero or lie between \<open>2^-33\<close> and
  \<open>2^32\<close>, far inside the range of exponents of the format (\<open>-126\<close> to \<open>127\<close>), where
  neither an infinity, nor a NaN, nor a subnormal value arises. So the model leaves the
  exponent unbounded and has rounding as the only effect of the format. Expressions of type
  \<^verbatim>\<open>float\<close> are taken to be evaluated in that type (\<^verbatim>\<open>FLT_EVAL_METHOD\<close> 0, as with SSE
  arithmetic on x86-64).

  \<open>exponent r\<close>, for \<open>r > 0\<close>, is the \<open>e\<close> with \<open>2^e \<le> r < 2^(e + 1)\<close>: the lengths in
  bits of numerator and denominator give it up to one.
\<close>

definition exponent :: "rat \<Rightarrow> int" where
  "exponent r =
     (let (a, b) = quotient_of r;
          d = bitlen a - bitlen b
      in if 2 powi d \<le> r then d else d - 1)"

text \<open>The integer nearest to \<open>q\<close>; of two nearest integers, the even one.\<close>

definition round_half_even :: "rat \<Rightarrow> int" where
  "round_half_even q =
     (let f = \<lfloor>q\<rfloor>;
          d = q - of_int f
      in if d < 1/2 then f
         else if 1/2 < d then f + 1
         else if even f then f else f + 1)"

text \<open>The binary32 value nearest to \<open>r\<close>: \<open>r\<close> with its significand rounded to 24 bits.\<close>

definition round32 :: "rat \<Rightarrow> rat" where
  "round32 r =
     (if r = 0 then 0
      else let u = 2 powi (exponent \<bar>r\<bar> - 23)
           in of_int (round_half_even (r / u)) * u)"

text \<open>
  A \<^verbatim>\<open>float\<close> is given by the number it stands for. Every operation returns a rounded
  number, so every value that the program computes from its counts is a binary32 value; the
  constants \<open>0\<close> and \<open>1\<close> are. Values are compared as numbers.
\<close>

datatype float = Float (float_val: rat)

instantiation float :: "{zero, one, plus, times, inverse, linorder}"
begin

definition zero_float :: float where
  "zero_float = Float 0"

definition one_float :: float where
  "one_float = Float 1"

definition plus_float :: "float \<Rightarrow> float \<Rightarrow> float" where
  "plus_float x y = Float (round32 (float_val x + float_val y))"

definition times_float :: "float \<Rightarrow> float \<Rightarrow> float" where
  "times_float x y = Float (round32 (float_val x * float_val y))"

definition divide_float :: "float \<Rightarrow> float \<Rightarrow> float" where
  "divide_float x y = Float (round32 (float_val x / float_val y))"

definition inverse_float :: "float \<Rightarrow> float" where
  "inverse_float x = Float (round32 (1 / float_val x))"

definition less_eq_float :: "float \<Rightarrow> float \<Rightarrow> bool" where
  "less_eq_float x y = (float_val x \<le> float_val y)"

definition less_float :: "float \<Rightarrow> float \<Rightarrow> bool" where
  "less_float x y = (float_val x < float_val y)"

instance
  by standard (auto simp: less_eq_float_def less_float_def float.expand)

end

text \<open>The conversions \<^verbatim>\<open>float(n)\<close> of an \<^verbatim>\<open>int\<close> and of an \<^verbatim>\<open>unsigned\<close>.\<close>

definition float_of_int :: "int \<Rightarrow> float" where
  "float_of_int n = Float (round32 (of_int n))"

subsection \<open>\<^verbatim>\<open>Coder::EncShannon\<close>\<close>

text \<open>The first loop: \<^verbatim>\<open>pfull = 0; for (i = li; i <= ri; ++i) pfull += ptable[i].p;\<close>\<close>

definition sum_probs :: "('p::{zero,plus}) pnode list \<Rightarrow> int \<Rightarrow> int \<Rightarrow> 'p" where
  "sum_probs ptable li ri = fold (\<lambda>i pfull. pfull + p (ptable ! nat i)) [li..ri] 0"

text \<open>
  One round of the second loop, on the state \<open>(p, isp, codes)\<close>; the running sum \<^verbatim>\<open>p\<close>
  of the source is called \<open>psum\<close>.
\<close>

definition search_step ::
  "('p::{plus,ord}) pnode list \<Rightarrow> 'p \<Rightarrow> int \<Rightarrow> 'p \<times> int \<times> codes \<Rightarrow> 'p \<times> int \<times> codes" where
  "search_step ptable phalf i st =
     (case st of (psum, isp, codes) \<Rightarrow>
        let psum' = psum + p (ptable ! nat i) in
        if psum' \<le> phalf
        then (psum', isp, codes_append (ch (ptable ! nat i)) (CHR ''0'') codes)
        else (psum', if isp < 0 then i else isp,
              codes_append (ch (ptable ! nat i)) (CHR ''1'') codes))"

text \<open>\<^verbatim>\<open>p = 0; isp = -1; for (i = li; i <= ri; ++i) ...\<close>\<close>

definition search_center ::
  "('p::{zero,plus,ord}) pnode list \<Rightarrow> 'p \<Rightarrow> int \<Rightarrow> int \<Rightarrow> codes \<Rightarrow> 'p \<times> int \<times> codes" where
  "search_center ptable phalf li ri codes =
     fold (search_step ptable phalf) [li..ri] (0, -1, codes)"

text \<open>The constant \<^verbatim>\<open>0.5f\<close>.\<close>

definition half_f :: "'p::{one,plus,inverse}" where
  "half_f = 1 / (1 + 1)"

fun EncShannon ::
  "nat \<Rightarrow> ('p::{zero,one,plus,times,inverse,ord}) pnode list \<Rightarrow> int \<Rightarrow> int \<Rightarrow> codes
     \<Rightarrow> codes option" where
  "EncShannon 0 ptable li ri codes = None"
| "EncShannon (Suc depth) ptable li ri codes =
     (if li = ri then Some codes
      else if ri - li = 1 then
        Some (codes_append (ch (ptable ! nat ri)) (CHR ''1'')
               (codes_append (ch (ptable ! nat li)) (CHR ''0'') codes))
      else
        let pfull = sum_probs ptable li ri;
            phalf = pfull * half_f;
            (psum, isp0, codes1) = search_center ptable phalf li ri codes;
            isp = (if isp0 < 0 then li + 1 else isp0)
        in case EncShannon depth ptable li (isp - 1) codes1 of
             None \<Rightarrow> None
           | Some codes2 \<Rightarrow> EncShannon depth ptable isp ri codes2)"

subsection \<open>\<^verbatim>\<open>Coder::Encode\<close>\<close>

record 'p artifact =
  art_tsize :: int
  art_rows :: "(char \<times> 'p \<times> string) list"
  art_bits :: string

text \<open>\<^verbatim>\<open>while (fscanf(inputFile, "%c", &ch) != EOF) { freqs[ch]++; total++; }\<close>\<close>

definition count_chars :: "string \<Rightarrow> (char \<times> int) list" where
  "count_chars input = fold (\<lambda>c freqs. map_put c (map_at 0 freqs c + 1) freqs) input []"

text \<open>
  \<^verbatim>\<open>float ftot = float(total);\<close> and, for each entry of \<^verbatim>\<open>freqs\<close>,
  \<^verbatim>\<open>ptable[i].ch = fi->first; ptable[i].p = float(fi->second) / ftot;\<close>
\<close>

definition build_ptable :: "(char \<times> int) list \<Rightarrow> nat \<Rightarrow> float pnode list" where
  "build_ptable freqs tot =
     (let ftot = float_of_int (int tot)
      in map (\<lambda>(c, n). \<lparr>ch = c, p = float_of_int n / ftot\<rparr>) freqs)"

definition Encode_ptable :: "string \<Rightarrow> float pnode list" where
  "Encode_ptable input =
     qsort pnode_compare (build_ptable (count_chars input) (length input))"

definition Encode :: "nat \<Rightarrow> string \<Rightarrow> float artifact option" where
  "Encode depth input =
     (let ptable = Encode_ptable input;
          tsize = int (length ptable)
      in case EncShannon depth ptable 0 (tsize - 1) [] of
           None \<Rightarrow> None
         | Some codes \<Rightarrow>
             Some \<lparr>art_tsize = tsize,
                   art_rows = map (\<lambda>e. (ch e, p e, map_at [] codes (ch e))) ptable,
                   art_bits = concat (map (map_at [] codes) input)\<rparr>)"

subsection \<open>\<^verbatim>\<open>Coder::Decode\<close>\<close>

text \<open>
  The test \<^verbatim>\<open>!strcmp(a.c_str(), b.c_str())\<close>, true when the two C strings are equal: a
  C string ends at its first NUL.
\<close>

definition c_str :: "string \<Rightarrow> string" where
  "c_str s = takeWhile (\<lambda>c. c \<noteq> CHR 0x00) s"

definition strcmp_is_0 :: "string \<Rightarrow> string \<Rightarrow> bool" where
  "strcmp_is_0 a b = (c_str a = c_str b)"

text \<open>
  The inner loop visits every entry of \<^verbatim>\<open>codes\<close>, and goes on after a match, with the
  accumulator it has just emptied. The state is \<open>(accum, output)\<close>.
\<close>

fun match_codes :: "codes \<Rightarrow> string \<times> string \<Rightarrow> string \<times> string" where
  "match_codes [] st = st"
| "match_codes ((c, code) # ci) (accum, out) =
     (if strcmp_is_0 code accum then match_codes ci ([], out @ [c])
      else match_codes ci (accum, out))"

definition Decode_step :: "codes \<Rightarrow> char \<Rightarrow> string \<times> string \<Rightarrow> string \<times> string" where
  "Decode_step codes b st = match_codes codes (fst st @ [b], snd st)"

text \<open>
  \<^verbatim>\<open>while ((ch = fgetc(inputFile)) != EOF)\<close> with \<^verbatim>\<open>char ch\<close>: the byte 255 becomes the
  \<^verbatim>\<open>char\<close> \<open>-1\<close>, which is \<^verbatim>\<open>EOF\<close>, so the loop ends at the end of the file or at the
  first such byte.
\<close>

definition until_EOF :: "string \<Rightarrow> string" where
  "until_EOF bits = takeWhile (\<lambda>c. c \<noteq> CHR 0xFF) bits"

definition Decode_loop :: "codes \<Rightarrow> string \<Rightarrow> string \<times> string" where
  "Decode_loop codes bits = fold (Decode_step codes) (until_EOF bits) ([], [])"

text \<open>\<^verbatim>\<open>for (i = 0; i < tsize; i++) { ...; codes[ch] = code; }\<close>\<close>

definition load_codes :: "int \<Rightarrow> (char \<times> 'p \<times> string) list \<Rightarrow> codes" where
  "load_codes tsize rows =
     fold (\<lambda>(c, pr, code) codes. map_put c code codes) (take (nat tsize) rows) []"

definition Decode :: "'p artifact \<Rightarrow> string" where
  "Decode art =
     snd (Decode_loop (load_codes (art_tsize art) (art_rows art)) (art_bits art))"

section \<open>Predicates used in the statements\<close>

text \<open>No entry of the table compares equal to the accumulator.\<close>

definition unmatched :: "codes \<Rightarrow> string \<Rightarrow> bool" where
  "unmatched codes accum = (\<forall>(c, code) \<in> set codes. \<not> strcmp_is_0 code accum)"

text \<open>
  Every codeword of the table is non-empty, and is a C string: \<^verbatim>\<open>Decode\<close> fills the
  table from a \<^verbatim>\<open>char\<close> array, so no codeword holds a NUL.
\<close>

definition c_strings :: "codes \<Rightarrow> bool" where
  "c_strings codes = (\<forall>(c, code) \<in> set codes. code \<noteq> [] \<and> CHR 0x00 \<notin> set code)"

text \<open>
  The invariant of the decoding loop after the bits \<open>bs\<close>: the codewords of the symbols
  written so far, then the accumulator, are the bits read; and an accumulator that is not
  empty has matched no codeword.
\<close>

definition decode_inv :: "codes \<Rightarrow> string \<Rightarrow> string \<times> string \<Rightarrow> bool" where
  "decode_inv codes bs st =
     (concat (map (map_at [] codes) (snd st)) @ fst st = bs
      \<and> (fst st \<noteq> [] \<longrightarrow> unmatched codes (fst st)))"

text \<open>Every probability of the table is positive.\<close>

definition positive :: "('p::{zero,ord}) pnode list \<Rightarrow> bool" where
  "positive ptable = (\<forall>e \<in> set ptable. 0 < p e)"

text \<open>
  What a call of \<^verbatim>\<open>EncShannon\<close> on \<open>[li, ri]\<close> that returns has done to the codewords:
  the element at \<open>i\<close> has got the bits \<open>suf i\<close> appended, all of them \<open>0\<close> or \<open>1\<close>; no
  element's new bits are a prefix of another element's; every other codeword is as before.
\<close>

definition range_codes ::
  "'p pnode list \<Rightarrow> int \<Rightarrow> int \<Rightarrow> codes \<Rightarrow> codes \<Rightarrow> (int \<Rightarrow> string) \<Rightarrow> bool" where
  "range_codes ptable li ri codes codes' suf =
     ((\<forall>i. li \<le> i \<and> i \<le> ri \<longrightarrow>
          map_at [] codes' (ch (ptable ! nat i)) = map_at [] codes (ch (ptable ! nat i)) @ suf i
          \<and> set (suf i) \<subseteq> {CHR ''0'', CHR ''1''})
      \<and> (\<forall>i j. li \<le> i \<and> i \<le> ri \<and> li \<le> j \<and> j \<le> ri \<and> i \<noteq> j \<longrightarrow> \<not> prefix (suf i) (suf j))
      \<and> (\<forall>c. (\<forall>i. li \<le> i \<and> i \<le> ri \<longrightarrow> c \<noteq> ch (ptable ! nat i)) \<longrightarrow>
            map_at [] codes' c = map_at [] codes c))"

text \<open>The entries of a \<^verbatim>\<open>std::map\<close> are in strictly increasing key order.\<close>

definition key_sorted :: "(char \<times> 'v) list \<Rightarrow> bool" where
  "key_sorted m = sorted_wrt (<) (map (\<lambda>e. schar (fst e)) m)"

text \<open>No codeword of the table is a prefix of the codeword of another symbol.\<close>

definition prefix_free :: "codes \<Rightarrow> bool" where
  "prefix_free codes =
     (\<forall>(c1, w1) \<in> set codes. \<forall>(c2, w2) \<in> set codes. c1 \<noteq> c2 \<longrightarrow> \<not> prefix w1 w2)"

text \<open>
  What one call of \<^verbatim>\<open>EncShannon\<close> on \<open>[li, ri]\<close> does itself, before it recurses: every
  element of the range has got one bit, \<open>0\<close> or \<open>1\<close>, appended to its codeword, and every
  other codeword is as before.
\<close>

definition one_more_bit :: "'p pnode list \<Rightarrow> int \<Rightarrow> int \<Rightarrow> codes \<Rightarrow> codes \<Rightarrow> bool" where
  "one_more_bit ptable li ri codes codes1 =
     ((\<forall>i \<in> set [li..ri].
          map_at [] codes1 (ch (ptable ! nat i)) = map_at [] codes (ch (ptable ! nat i)) @ ''0''
          \<or> map_at [] codes1 (ch (ptable ! nat i))
               = map_at [] codes (ch (ptable ! nat i)) @ ''1'')
      \<and> (\<forall>c. c \<in> (\<lambda>i. ch (ptable ! nat i)) ` set [li..ri]
              \<or> map_at [] codes1 c = map_at [] codes c))"

text \<open>
  What a call of \<^verbatim>\<open>EncShannon\<close> on a range of three elements or more has done when it
  reaches its two recursive calls: the split point \<^verbatim>\<open>isp\<close> and the codewords.
\<close>

definition EncShannon_split ::
  "('p::{zero,one,plus,times,inverse,ord}) pnode list \<Rightarrow> int \<Rightarrow> int \<Rightarrow> codes \<Rightarrow> int \<times> codes" where
  "EncShannon_split ptable li ri codes =
     (let pfull = sum_probs ptable li ri;
          phalf = pfull * half_f;
          (psum, isp0, codes1) = search_center ptable phalf li ri codes;
          isp = (if isp0 < 0 then li + 1 else isp0)
      in (isp, codes1))"

text \<open>
  In every window \<open>[l, r]\<close> of three entries or more inside \<open>[lo, hi]\<close>, the first entry
  is at most half the sum of the window, both as the program computes them: the running sum
  after the first entry, \<open>0 + p\<close>, and \<^verbatim>\<open>phalf\<close>.
\<close>

definition balanced ::
  "('p::{zero,one,plus,times,inverse,ord}) pnode list \<Rightarrow> int \<Rightarrow> int \<Rightarrow> bool" where
  "balanced ptable lo hi =
     (\<forall>l \<in> set [lo..hi]. \<forall>r \<in> set [l + 2..hi].
        sum_probs ptable l l \<le> sum_probs ptable l r * half_f)"

subsection \<open>The code-tree builder in the words of the specification\<close>

text \<open>
  The general case as the specification describes it, in \<^verbatim>\<open>float\<close> arithmetic: the
  running sum after each element, accumulated from left to right; the total of the range;
  the bit of an element, \<open>0\<close> while the running sum that includes it is at most the total
  divided by two and \<open>1\<close> otherwise; and the split point, the first index with the bit
  \<open>1\<close>, or \<open>lo + 1\<close> when there is none.
\<close>

definition spec_running_sum :: "float pnode list \<Rightarrow> int \<Rightarrow> int \<Rightarrow> float" where
  "spec_running_sum ptable lo i = foldl (+) 0 (map (\<lambda>k. p (ptable ! nat k)) [lo..i])"

definition spec_total :: "float pnode list \<Rightarrow> int \<Rightarrow> int \<Rightarrow> float" where
  "spec_total ptable lo hi = foldl (+) 0 (map (\<lambda>k. p (ptable ! nat k)) [lo..hi])"

definition spec_bit :: "float pnode list \<Rightarrow> int \<Rightarrow> int \<Rightarrow> int \<Rightarrow> char" where
  "spec_bit ptable lo hi i =
     (if spec_running_sum ptable lo i \<le> spec_total ptable lo hi / Float 2 then CHR ''0''
      else CHR ''1'')"

definition spec_split :: "float pnode list \<Rightarrow> int \<Rightarrow> int \<Rightarrow> int" where
  "spec_split ptable lo hi =
     (case find (\<lambda>i. spec_bit ptable lo hi i = CHR ''1'') [lo..hi] of
        Some i \<Rightarrow> i
      | None \<Rightarrow> lo + 1)"

section \<open>Maps\<close>

lemma map_of_map_put:
  "map_of (map_put k v m) k' = (if k' = k then Some v else map_of m k')"
  by (induction m) auto

lemma map_at_map_put:
  "map_at d (map_put k v m) k' = (if k' = k then v else map_at d m k')"
  by (simp add: map_at_def map_of_map_put)

lemma map_at_codes_append:
  "map_at [] (codes_append c b codes) c' =
     (if c' = c then map_at [] codes c @ [b] else map_at [] codes c')"
  by (simp add: codes_append_def map_at_map_put)

lemma fold_codes_append_other:
  "c \<notin> key ` set is \<Longrightarrow>
   map_at [] (fold (\<lambda>i. codes_append (key i) (b i)) is codes) c = map_at [] codes c"
  by (induction "is" arbitrary: codes) (auto simp: map_at_codes_append)

lemma fold_codes_append_at:
  "distinct (map key is) \<Longrightarrow> i \<in> set is \<Longrightarrow>
   map_at [] (fold (\<lambda>i. codes_append (key i) (b i)) is codes) (key i)
     = map_at [] codes (key i) @ [b i]"
proof (induction "is" arbitrary: codes)
  case Nil
  then show ?case by simp
next
  case (Cons j js)
  show ?case
  proof (cases "i = j")
    case True
    with Cons.prems(1) have "key i \<notin> key ` set js" by auto
    from fold_codes_append_other [OF this] True show ?thesis
      by (simp add: map_at_codes_append)
  next
    case False
    with Cons.prems have "i \<in> set js" "distinct (map key js)" "key i \<noteq> key j"
      by (auto simp: image_iff)
    with Cons.IH [of "codes_append (key j) (b j) codes"] show ?thesis
      by (simp add: map_at_codes_append)
  qed
qed

lemma map_at_cases: "map_at d m k = d \<or> (k, map_at d m k) \<in> set m"
  by (auto simp: map_at_def split: option.splits dest: map_of_SomeD)

lemma schar_inj: "schar a = schar b \<Longrightarrow> a = b"
proof -
  assume eq: "schar a = schar b"
  have r: "0 \<le> (of_char c :: int) \<and> (of_char c :: int) < 256" for c
    using pos_mod_sign [of 256 "of_char c :: int"] pos_mod_bound [of 256 "of_char c :: int"]
    by simp
  from eq r [of a] r [of b] have "(of_char a :: int) = of_char b"
    by (auto simp: schar_def Let_def split: if_splits)
  then show "a = b" by simp
qed

lemma keys_map_put: "fst ` set (map_put k v m) = insert k (fst ` set m)"
proof (induction m)
  case Nil
  show ?case by simp
next
  case (Cons e m)
  obtain k' v' where e: "e = (k', v')" by (cases e)
  from Cons.IH show ?case
    unfolding e by (cases "k = k'"; cases "schar k < schar k'") (simp_all add: insert_commute)
qed

lemma set_map_put: "set (map_put k v m) \<subseteq> insert (k, v) (set m)"
  by (induction m) (auto split: if_splits)

lemma key_sorted_map_put: "key_sorted m \<Longrightarrow> key_sorted (map_put k v m)"
proof (induction m)
  case Nil
  show ?case by (simp add: key_sorted_def)
next
  case (Cons e m)
  obtain k' v' where e: "e = (k', v')" by (cases e)
  from Cons.prems have m: "key_sorted m" and lt: "\<forall>x \<in> set m. schar k' < schar (fst x)"
    by (auto simp: key_sorted_def e)
  show ?case
  proof (cases "k = k'")
    case True
    with Cons.prems e show ?thesis by (simp add: key_sorted_def)
  next
    case False
    show ?thesis
    proof (cases "schar k < schar k'")
      case True
      with Cons.prems e False lt show ?thesis by (fastforce simp: key_sorted_def)
    next
      case g: False
      with False schar_inj [of k k'] have "schar k' < schar k" by fastforce
      moreover have "\<forall>x \<in> set (map_put k v m). schar k' < schar (fst x)"
      proof
        fix x assume "x \<in> set (map_put k v m)"
        then have "fst x \<in> insert k (fst ` set m)"
          using keys_map_put [of k v m] by blast
        with lt \<open>schar k' < schar k\<close> show "schar k' < schar (fst x)" by auto
      qed
      moreover note Cons.IH [OF m]
      ultimately show ?thesis using False g e by (simp add: key_sorted_def)
    qed
  qed
qed

lemma key_sorted_distinct: "key_sorted m \<Longrightarrow> distinct (map fst m)"
proof -
  assume "key_sorted m"
  then have "distinct (map (\<lambda>e. schar (fst e)) m)"
    unfolding key_sorted_def by (simp add: strict_sorted_iff)
  then have "distinct (map (schar \<circ> fst) m)" by (simp add: comp_def)
  then show ?thesis by (metis distinct_map map_map)
qed

lemma distinct_keys_unique:
  "distinct (map fst m) \<Longrightarrow> (k, v) \<in> set m \<Longrightarrow> (k, v') \<in> set m \<Longrightarrow> v = v'"
  by (metis map_of_is_SomeI option.inject)

section \<open>The loops of the code-tree builder\<close>

lemma upto_snoc: "li \<le> r + 1 \<Longrightarrow> [li..r + 1] = [li..r] @ [r + 1]"
  using upto_rec2 [of li "r + 1"] by simp

lemma sum_probs_empty: "r < li \<Longrightarrow> sum_probs ptable li r = 0"
  by (simp add: sum_probs_def)

lemma sum_probs_snoc:
  "li \<le> r + 1 \<Longrightarrow> sum_probs ptable li (r + 1) = sum_probs ptable li r + p (ptable ! nat (r + 1))"
  by (simp add: sum_probs_def upto_snoc)

lemma search_center_snoc:
  "li \<le> r + 1 \<Longrightarrow> search_center ptable phalf li (r + 1) codes
     = search_step ptable phalf (r + 1) (search_center ptable phalf li r codes)"
  by (simp add: search_center_def upto_snoc)

lemma search_center_empty:
  "ri < li \<Longrightarrow> search_center ptable phalf li ri codes = (0, -1, codes)"
  by (simp add: search_center_def)

lemma find_snoc:
  "find P (xs @ [x]) = (case find P xs of None \<Rightarrow> (if P x then Some x else None) | Some y \<Rightarrow> Some y)"
  by (induction xs) auto

lemma find_upto_Some:
  "find P [li..r] = Some k \<Longrightarrow> li \<le> k \<and> k \<le> r \<and> P k \<and> (\<forall>i. li \<le> i \<and> i < k \<longrightarrow> \<not> P i)"
proof -
  assume "find P [li..r] = Some k"
  then obtain n where n: "n < length [li..r]" "P ([li..r] ! n)" "k = [li..r] ! n"
    "\<forall>j<n. \<not> P ([li..r] ! j)"
    unfolding find_Some_iff by blast
  from n(1) have k: "k = li + int n" using n(3) by (simp add: nth_upto)
  have "\<not> P i" if "li \<le> i" "i < k" for i
  proof -
    from that k have "nat (i - li) < n" by simp
    with n(4) have "\<not> P ([li..r] ! nat (i - li))" by blast
    moreover have "[li..r] ! nat (i - li) = i"
      using that n(1) k by (simp add: nth_upto)
    ultimately show ?thesis by simp
  qed
  with n k show ?thesis by auto
qed

text \<open>
  The second loop in closed form: the running sum after \<open>i\<close> is the sum over \<open>[li, i]\<close>, each
  element gets its bit from the comparison of that sum with \<open>phalf\<close>, and \<open>isp\<close> is the
  first index whose sum exceeds \<open>phalf\<close>, or \<open>-1\<close>.
\<close>

lemma search_center_closed:
  assumes "0 \<le> li" "li - 1 \<le> r"
  shows "search_center ptable phalf li r codes =
     (sum_probs ptable li r,
      (case find (\<lambda>i. \<not> sum_probs ptable li i \<le> phalf) [li..r] of None \<Rightarrow> -1 | Some i \<Rightarrow> i),
      fold (\<lambda>i. codes_append (ch (ptable ! nat i))
                  (if sum_probs ptable li i \<le> phalf then CHR ''0'' else CHR ''1''))
        [li..r] codes)"
  using assms(2)
proof (induction r rule: int_ge_induct)
  case base
  show ?case by (simp add: search_center_def sum_probs_def)
next
  case (step r)
  then have le: "li \<le> r + 1" by simp
  show ?case
  proof (cases "find (\<lambda>i. \<not> sum_probs ptable li i \<le> phalf) [li..r]")
    case None
    with step.IH le show ?thesis
      by (simp add: search_center_snoc search_step_def sum_probs_snoc upto_snoc find_snoc Let_def)
  next
    case (Some k)
    from find_upto_Some [OF Some] assms(1) have "0 \<le> k" by simp
    with Some step.IH le show ?thesis
      by (simp add: search_center_snoc search_step_def sum_probs_snoc upto_snoc find_snoc Let_def)
  qed
qed

text \<open>The general branch, with both loops in closed form.\<close>

lemma EncShannon_closed:
  assumes "0 \<le> li" "li \<noteq> ri" "ri - li \<noteq> 1" "li - 1 \<le> ri"
  shows "EncShannon (Suc depth) ptable li ri codes =
     (let phalf = sum_probs ptable li ri * half_f;
          isp0 = (case find (\<lambda>i. \<not> sum_probs ptable li i \<le> phalf) [li..ri] of
                    None \<Rightarrow> -1 | Some i \<Rightarrow> i);
          codes1 = fold (\<lambda>i. codes_append (ch (ptable ! nat i))
                     (if sum_probs ptable li i \<le> phalf then CHR ''0'' else CHR ''1''))
                   [li..ri] codes;
          isp = (if isp0 < 0 then li + 1 else isp0)
      in case EncShannon depth ptable li (isp - 1) codes1 of
           None \<Rightarrow> None
         | Some codes2 \<Rightarrow> EncShannon depth ptable isp ri codes2)"
  using assms(2,3)
    search_center_closed [OF assms(1,4), of ptable "sum_probs ptable li ri * half_f" codes]
  by (simp add: Let_def)

lemma EncShannon_general:
  "li \<noteq> ri \<Longrightarrow> ri - li \<noteq> 1 \<Longrightarrow>
   search_center ptable (sum_probs ptable li ri * half_f) li ri codes = (psum, k, codes1) \<Longrightarrow>
   0 \<le> k \<Longrightarrow>
   EncShannon (Suc depth) ptable li ri codes =
     (case EncShannon depth ptable li (k - 1) codes1 of
        None \<Rightarrow> None | Some codes2 \<Rightarrow> EncShannon depth ptable k ri codes2)"
  by simp

lemma range_keys_neq:
  assumes "distinct (map ch ptable)" "0 \<le> i" "i < int (length ptable)"
    "0 \<le> j" "j < int (length ptable)" "i \<noteq> j"
  shows "ch (ptable ! nat i) \<noteq> ch (ptable ! nat j)"
proof
  assume eq: "ch (ptable ! nat i) = ch (ptable ! nat j)"
  from assms have b: "nat i < length (map ch ptable)" "nat j < length (map ch ptable)"
    by simp_all
  from eq b have "map ch ptable ! nat i = map ch ptable ! nat j" by simp
  with nth_eq_iff_index_eq [OF assms(1) b] have "nat i = nat j" by blast
  with assms show False by simp
qed

lemma distinct_range_keys:
  assumes "distinct (map ch ptable)" "0 \<le> li" "ri < int (length ptable)"
  shows "distinct (map (\<lambda>i. ch (ptable ! nat i)) [li..ri])"
proof -
  have "inj_on (\<lambda>i. ch (ptable ! nat i)) (set [li..ri])"
  proof (rule inj_onI)
    fix i j
    assume ij: "i \<in> set [li..ri]" "j \<in> set [li..ri]"
      and eq: "ch (ptable ! nat i) = ch (ptable ! nat j)"
    from ij assms have b: "0 \<le> i" "i < int (length ptable)" "0 \<le> j" "j < int (length ptable)"
      by auto
    from range_keys_neq [OF assms(1) b] eq show "i = j" by blast
  qed
  then show ?thesis by (simp add: distinct_map)
qed

section \<open>The depth of recursion\<close>

text \<open>A call that returns with some depth of stack returns the same with any greater depth.\<close>

lemma EncShannon_more_depth:
  "EncShannon depth ptable li ri codes = Some codes' \<Longrightarrow> depth \<le> depth' \<Longrightarrow>
   EncShannon depth' ptable li ri codes = Some codes'"
proof (induction depth arbitrary: depth' li ri codes codes')
  case 0
  then show ?case by simp
next
  case (Suc d)
  from Suc.prems(2) obtain d' where d': "depth' = Suc d'" "d \<le> d'"
    by (cases depth') auto
  show ?case
  proof (cases "li = ri \<or> ri - li = 1")
    case True
    with Suc.prems(1) show ?thesis by (auto simp: d')
  next
    case False
    obtain psum isp0 codes1 where
      sc: "search_center ptable (sum_probs ptable li ri * half_f) li ri codes = (psum, isp0, codes1)"
      by (cases "search_center ptable (sum_probs ptable li ri * half_f) li ri codes")
    define isp where "isp = (if isp0 < 0 then li + 1 else isp0)"
    from Suc.prems(1) False sc obtain codes2 where
      L: "EncShannon d ptable li (isp - 1) codes1 = Some codes2"
      and R: "EncShannon d ptable isp ri codes2 = Some codes'"
      by (auto simp: Let_def isp_def split: option.splits)
    from Suc.IH [OF L d'(2)] Suc.IH [OF R d'(2)] False sc show ?thesis
      by (simp add: d' Let_def isp_def)
  qed
qed

lemma Encode_more_depth:
  "Encode depth input = Some art \<Longrightarrow> depth \<le> depth' \<Longrightarrow> Encode depth' input = Some art"
  by (auto simp: Encode_def Let_def split: option.splits dest: EncShannon_more_depth)

section \<open>Calls of the builder that never return\<close>

text \<open>
  A call with \<open>ri < li\<close> takes the general branch: both loops run zero times, \<open>isp\<close>
  stays \<open>-1\<close> and becomes \<open>li + 1\<close>; the first recursive call, on \<open>[li, li]\<close>,
  returns, and the second is on \<open>[li + 1, ri]\<close>, an empty range again. No depth of
  stack is enough for it. (The program ends in a stack overflow; the left end would have
  to grow past the largest \<^verbatim>\<open>int\<close>, where C++ leaves the behaviour undefined, before
  anything else could happen.)
\<close>

lemma EncShannon_empty_range:
  "ri < li \<Longrightarrow> EncShannon depth ptable li ri codes = None"
proof (induction depth arbitrary: li codes)
  case 0
  show ?case by simp
next
  case (Suc depth)
  from Suc.prems have "ri < li + 1" by simp
  then have "EncShannon depth ptable (li + 1) ri cs = None" for cs
    by (rule Suc.IH)
  with Suc.prems show ?case
    by (simp add: search_center_empty split: option.split)
qed

lemma EncShannon_Some_range:
  "EncShannon depth ptable li ri codes = Some codes' \<Longrightarrow> li \<le> ri"
  using EncShannon_empty_range [of ri li depth ptable codes] by (cases "li \<le> ri") auto

text \<open>
  So does a call on three elements or more whose first element alone exceeds half the
  total: the split point is \<open>li\<close> itself, and the first recursive call is on the empty
  range \<open>[li, li - 1]\<close>. (The fallback \<open>isp = li + 1\<close> is for \<open>isp < 0\<close> only.)
\<close>

lemma EncShannon_first_over_half:
  assumes li: "0 \<le> li" and three: "2 \<le> ri - li"
    and over: "\<not> sum_probs ptable li li \<le> sum_probs ptable li ri * half_f"
  shows "EncShannon depth ptable li ri codes = None"
proof (cases depth)
  case 0
  then show ?thesis by simp
next
  case (Suc d)
  let ?P = "\<lambda>i. \<not> sum_probs ptable li i \<le> sum_probs ptable li ri * half_f"
  from three have "[li..ri] = li # [li + 1..ri]" by (simp add: upto_rec1)
  with over have f: "find ?P [li..ri] = Some li" by simp
  from three have "li \<noteq> ri" "ri - li \<noteq> 1" "li - 1 \<le> ri" by simp_all
  from EncShannon_closed [OF li this, of d ptable codes] f li
  show ?thesis
    by (simp add: Suc Let_def EncShannon_empty_range del: EncShannon.simps)
qed

section \<open>A call up to its recursive calls\<close>

text \<open>
  On a range of three elements or more, \<^verbatim>\<open>EncShannon\<close> recurses on \<open>[li, isp - 1]\<close> and
  \<open>[isp, ri]\<close> with the split point and the codewords that \<open>EncShannon_split\<close> gives.
\<close>

lemma EncShannon_recurses:
  "li \<noteq> ri \<Longrightarrow> ri - li \<noteq> 1 \<Longrightarrow>
   EncShannon (Suc depth) ptable li ri codes =
     (case EncShannon_split ptable li ri codes of
        (isp, codes1) \<Rightarrow>
          (case EncShannon depth ptable li (isp - 1) codes1 of
             None \<Rightarrow> None
           | Some codes2 \<Rightarrow> EncShannon depth ptable isp ri codes2))"
  by (simp add: EncShannon_split_def Let_def split: prod.splits)

lemma EncShannon_split_closed:
  assumes "0 \<le> li" "li - 1 \<le> ri"
  shows "EncShannon_split ptable li ri codes =
     ((case find (\<lambda>i. \<not> sum_probs ptable li i \<le> sum_probs ptable li ri * half_f) [li..ri] of
         None \<Rightarrow> li + 1 | Some i \<Rightarrow> i),
      fold (\<lambda>i. codes_append (ch (ptable ! nat i))
              (if sum_probs ptable li i \<le> sum_probs ptable li ri * half_f
               then CHR ''0'' else CHR ''1''))
        [li..ri] codes)"
proof (cases "find (\<lambda>i. \<not> sum_probs ptable li i \<le> sum_probs ptable li ri * half_f) [li..ri]")
  case None
  with search_center_closed [OF assms, of ptable "sum_probs ptable li ri * half_f" codes]
  show ?thesis by (simp add: EncShannon_split_def Let_def)
next
  case (Some k)
  from find_upto_Some [OF Some] assms(1) have "0 \<le> k" by simp
  with Some search_center_closed [OF assms, of ptable "sum_probs ptable li ri * half_f" codes]
  show ?thesis by (simp add: EncShannon_split_def Let_def)
qed

lemma EncShannon_split_isp:
  assumes "0 \<le> li" "li < ri"
  shows "li \<le> fst (EncShannon_split ptable li ri codes)
     \<and> fst (EncShannon_split ptable li ri codes) \<le> ri"
proof (cases "find (\<lambda>i. \<not> sum_probs ptable li i \<le> sum_probs ptable li ri * half_f) [li..ri]")
  case None
  with assms show ?thesis by (simp add: EncShannon_split_closed)
next
  case (Some k)
  from find_upto_Some [OF Some] Some assms show ?thesis
    by (simp add: EncShannon_split_closed)
qed

lemma EncShannon_split_at:
  assumes "distinct (map ch ptable)" "0 \<le> li" "ri < int (length ptable)" "li \<le> i" "i \<le> ri"
  shows "map_at [] (snd (EncShannon_split ptable li ri codes)) (ch (ptable ! nat i))
     = map_at [] codes (ch (ptable ! nat i))
         @ [if sum_probs ptable li i \<le> sum_probs ptable li ri * half_f
            then CHR ''0'' else CHR ''1'']"
proof -
  have dk: "distinct (map (\<lambda>i. ch (ptable ! nat i)) [li..ri])"
    by (rule distinct_range_keys [OF assms(1,2,3)])
  from assms have i: "i \<in> set [li..ri]" and r: "li - 1 \<le> ri" by simp_all
  from fold_codes_append_at [OF dk i] show ?thesis
    by (simp add: EncShannon_split_closed [OF assms(2) r])
qed

lemma EncShannon_split_other:
  assumes "0 \<le> li" "li - 1 \<le> ri" "c \<notin> (\<lambda>i. ch (ptable ! nat i)) ` set [li..ri]"
  shows "map_at [] (snd (EncShannon_split ptable li ri codes)) c = map_at [] codes c"
  using fold_codes_append_other [OF assms(3)]
  by (simp add: EncShannon_split_closed [OF assms(1,2)])

lemma EncShannon_split_one_more_bit:
  assumes dist: "distinct (map ch ptable)" and li: "0 \<le> li" and le: "li \<le> ri"
    and ri: "ri < int (length ptable)"
  shows "one_more_bit ptable li ri codes (snd (EncShannon_split ptable li ri codes))"
  unfolding one_more_bit_def
proof (intro conjI ballI allI)
  fix i assume "i \<in> set [li..ri]"
  then have "li \<le> i" "i \<le> ri" by simp_all
  from EncShannon_split_at [OF dist li ri this, of codes]
  show "map_at [] (snd (EncShannon_split ptable li ri codes)) (ch (ptable ! nat i))
          = map_at [] codes (ch (ptable ! nat i)) @ ''0''
      \<or> map_at [] (snd (EncShannon_split ptable li ri codes)) (ch (ptable ! nat i))
          = map_at [] codes (ch (ptable ! nat i)) @ ''1''"
    by (simp split: if_splits)
next
  fix c
  from le have r: "li - 1 \<le> ri" by simp
  show "c \<in> (\<lambda>i. ch (ptable ! nat i)) ` set [li..ri]
      \<or> map_at [] (snd (EncShannon_split ptable li ri codes)) c = map_at [] codes c"
    using EncShannon_split_other [OF li r, of c ptable codes] by blast
qed

lemma two_appends_one_more_bit:
  assumes dist: "distinct (map ch ptable)" and li: "0 \<le> li" and r: "ri = li + 1"
    and ri: "ri < int (length ptable)"
  shows "one_more_bit ptable li ri codes
     (codes_append (ch (ptable ! nat ri)) (CHR ''1'')
       (codes_append (ch (ptable ! nat li)) (CHR ''0'') codes))"
proof -
  let ?key = "\<lambda>i. ch (ptable ! nat i)"
  let ?codes1 = "codes_append (?key ri) (CHR ''1'') (codes_append (?key li) (CHR ''0'') codes)"
  have ne: "?key li \<noteq> ?key ri"
    using r li ri by (intro range_keys_neq [OF dist]) simp_all
  show ?thesis
    unfolding one_more_bit_def
  proof (intro conjI ballI allI)
    fix i assume "i \<in> set [li..ri]"
    with r have "i = li \<or> i = ri" by auto
    then show "map_at [] ?codes1 (?key i) = map_at [] codes (?key i) @ ''0''
        \<or> map_at [] ?codes1 (?key i) = map_at [] codes (?key i) @ ''1''"
      using ne by (auto simp: map_at_codes_append)
  next
    fix c
    show "c \<in> ?key ` set [li..ri] \<or> map_at [] ?codes1 c = map_at [] codes c"
    proof (cases "c \<in> ?key ` set [li..ri]")
      case True
      then show ?thesis by simp
    next
      case False
      with r have "c \<noteq> ?key li" "c \<noteq> ?key ri" by auto
      then show ?thesis by (simp add: map_at_codes_append)
    qed
  qed
qed

section \<open>One call of the builder\<close>

text \<open>
  Claim C8, as the code has it, for any arithmetic. On a range of one element
  (\<open>li = ri\<close>) the call returns the codewords as they are: no bit is appended. On a range
  of two elements the call appends one bit to the codeword of either element, leaves
  every other codeword as it is, and returns. On a range of three elements or more, when
  the call reaches its recursive calls it has appended exactly one bit to the codeword of
  every element of the range and left every other codeword as it is; the split point
  \<open>isp\<close> lies in the range; and the call goes on with the calls on \<open>[li, isp - 1]\<close> and
  \<open>[isp, ri]\<close>, which append the further bits if they return.
\<close>

theorem EncShannon_one_more_bit:
  assumes dist: "distinct (map ch ptable)" and li: "0 \<le> li" and le: "li \<le> ri"
    and ri: "ri < int (length ptable)"
  shows "(li = ri \<longrightarrow> EncShannon (Suc depth) ptable li ri codes = Some codes)
     \<and> (ri - li = 1 \<longrightarrow>
          (\<exists>codes1. EncShannon (Suc depth) ptable li ri codes = Some codes1
             \<and> one_more_bit ptable li ri codes codes1))
     \<and> (2 \<le> ri - li \<longrightarrow>
          (let (isp, codes1) = EncShannon_split ptable li ri codes
           in one_more_bit ptable li ri codes codes1 \<and> li \<le> isp \<and> isp \<le> ri
              \<and> EncShannon (Suc depth) ptable li ri codes =
                  (case EncShannon depth ptable li (isp - 1) codes1 of
                     None \<Rightarrow> None
                   | Some codes2 \<Rightarrow> EncShannon depth ptable isp ri codes2)))"
proof (intro conjI impI)
  assume "li = ri"
  then show "EncShannon (Suc depth) ptable li ri codes = Some codes" by simp
next
  assume two: "ri - li = 1"
  then have r: "ri = li + 1" by simp
  from two have "EncShannon (Suc depth) ptable li ri codes =
      Some (codes_append (ch (ptable ! nat ri)) (CHR ''1'')
             (codes_append (ch (ptable ! nat li)) (CHR ''0'') codes))"
    by simp
  with two_appends_one_more_bit [OF dist li r ri, of codes]
  show "\<exists>codes1. EncShannon (Suc depth) ptable li ri codes = Some codes1
             \<and> one_more_bit ptable li ri codes codes1"
    by blast
next
  assume three: "2 \<le> ri - li"
  obtain isp codes1 where sp: "EncShannon_split ptable li ri codes = (isp, codes1)"
    by (cases "EncShannon_split ptable li ri codes")
  from three have ne: "li \<noteq> ri" "ri - li \<noteq> 1" and lt: "li < ri" by simp_all
  from EncShannon_split_one_more_bit [OF dist li le ri, of codes] sp
  have omb: "one_more_bit ptable li ri codes codes1" by simp
  from EncShannon_split_isp [OF li lt, of ptable codes] sp
  have isp: "li \<le> isp" "isp \<le> ri" by simp_all
  from EncShannon_recurses [OF ne, of depth ptable codes] sp
  have run: "EncShannon (Suc depth) ptable li ri codes =
      (case EncShannon depth ptable li (isp - 1) codes1 of
         None \<Rightarrow> None
       | Some codes2 \<Rightarrow> EncShannon depth ptable isp ri codes2)"
    by simp
  from omb isp run
  show "let (isp, codes1) = EncShannon_split ptable li ri codes
        in one_more_bit ptable li ri codes codes1 \<and> li \<le> isp \<and> isp \<le> ri
           \<and> EncShannon (Suc depth) ptable li ri codes =
               (case EncShannon depth ptable li (isp - 1) codes1 of
                  None \<Rightarrow> None
                | Some codes2 \<Rightarrow> EncShannon depth ptable isp ri codes2)"
    unfolding sp by simp
qed

section \<open>Calls of the builder that return\<close>

lemma balanced_sub:
  "balanced ptable lo hi \<Longrightarrow> lo \<le> lo' \<Longrightarrow> hi' \<le> hi \<Longrightarrow> balanced ptable lo' hi'"
  by (auto simp: balanced_def)

lemma balanced_first:
  "balanced ptable li ri \<Longrightarrow> 2 \<le> ri - li \<Longrightarrow>
   sum_probs ptable li li \<le> sum_probs ptable li ri * half_f"
  by (auto simp: balanced_def)

text \<open>
  On a balanced range the first element never gets the bit \<open>1\<close>, so the split point is
  past it and both recursive calls are on non-empty, shorter ranges: the call returns, with
  a depth of recursion of at most the number of elements.
\<close>

lemma EncShannon_returns:
  "balanced ptable li ri \<Longrightarrow> 0 \<le> li \<Longrightarrow> li \<le> ri \<Longrightarrow> nat (ri - li) < depth \<Longrightarrow>
   \<exists>codes'. EncShannon depth ptable li ri codes = Some codes'"
proof (induction depth arbitrary: li ri codes)
  case 0
  then show ?case by simp
next
  case (Suc depth)
  note bal = Suc.prems(1) and li = Suc.prems(2) and le = Suc.prems(3) and d = Suc.prems(4)
  show ?case
  proof (cases "li = ri \<or> ri - li = 1")
    case True
    then show ?thesis by auto
  next
    case False
    with le have three: "2 \<le> ri - li" and ne: "li \<noteq> ri" "ri - li \<noteq> 1" and lt: "li < ri"
      by simp_all
    let ?P = "\<lambda>i. \<not> sum_probs ptable li i \<le> sum_probs ptable li ri * half_f"
    obtain isp codes1 where sp: "EncShannon_split ptable li ri codes = (isp, codes1)"
      by (cases "EncShannon_split ptable li ri codes")
    from le have r: "li - 1 \<le> ri" by simp
    from sp EncShannon_split_closed [OF li r, of ptable codes]
    have isp_eq: "isp = (case find ?P [li..ri] of None \<Rightarrow> li + 1 | Some i \<Rightarrow> i)" by simp
    have first: "\<not> ?P li" using balanced_first [OF bal three] by simp
    have isp: "li < isp \<and> isp \<le> ri"
    proof (cases "find ?P [li..ri]")
      case None
      with isp_eq lt show ?thesis by simp
    next
      case (Some k)
      from find_upto_Some [OF Some] first have "li \<le> k" "k \<le> ri" "k \<noteq> li" by auto
      with isp_eq Some show ?thesis by simp
    qed
    from isp d have dL: "nat (isp - 1 - li) < depth" and dR: "nat (ri - isp) < depth"
      by arith+
    from isp have balL: "balanced ptable li (isp - 1)"
      by (intro balanced_sub [OF bal]) simp_all
    from isp dL have "\<exists>codes2. EncShannon depth ptable li (isp - 1) codes1 = Some codes2"
      by (intro Suc.IH [OF balL li]) simp_all
    then obtain codes2 where L: "EncShannon depth ptable li (isp - 1) codes1 = Some codes2" ..
    from isp have balR: "balanced ptable isp ri"
      by (intro balanced_sub [OF bal]) simp_all
    from isp li dR have "\<exists>codes'. EncShannon depth ptable isp ri codes2 = Some codes'"
      by (intro Suc.IH [OF balR]) simp_all
    then obtain codes' where R: "EncShannon depth ptable isp ri codes2 = Some codes'" ..
    from EncShannon_recurses [OF ne, of depth ptable codes] sp L R show ?thesis by simp
  qed
qed

text \<open>
  A call that returns at all returns within a depth of recursion of the number of elements
  of its range.
\<close>

lemma EncShannon_depth_bound:
  "EncShannon depth ptable li ri codes = Some codes' \<Longrightarrow> 0 \<le> li \<Longrightarrow>
   EncShannon (Suc (nat (ri - li))) ptable li ri codes = Some codes'"
proof (induction depth arbitrary: li ri codes codes')
  case 0
  then show ?case by simp
next
  case (Suc depth)
  note run = Suc.prems(1) and li = Suc.prems(2)
  from run have le: "li \<le> ri" by (rule EncShannon_Some_range)
  show ?case
  proof (cases "li = ri \<or> ri - li = 1")
    case True
    with run show ?thesis by auto
  next
    case False
    with le have ne: "li \<noteq> ri" "ri - li \<noteq> 1" and lt: "li < ri" by simp_all
    obtain isp codes1 where sp: "EncShannon_split ptable li ri codes = (isp, codes1)"
      by (cases "EncShannon_split ptable li ri codes")
    from run EncShannon_recurses [OF ne, of depth ptable codes] sp
    obtain codes2 where L: "EncShannon depth ptable li (isp - 1) codes1 = Some codes2"
      and R: "EncShannon depth ptable isp ri codes2 = Some codes'"
      by (auto split: option.splits)
    from L have l1: "li \<le> isp - 1" by (rule EncShannon_Some_range)
    from R have l2: "isp \<le> ri" by (rule EncShannon_Some_range)
    from l1 li have isp0: "0 \<le> isp" by simp
    from Suc.IH [OF L li] have "EncShannon (Suc (nat (isp - 1 - li))) ptable li (isp - 1) codes1 = Some codes2" .
    moreover from l1 l2 have "Suc (nat (isp - 1 - li)) \<le> nat (ri - li)" by arith
    ultimately have L': "EncShannon (nat (ri - li)) ptable li (isp - 1) codes1 = Some codes2"
      by (rule EncShannon_more_depth)
    from Suc.IH [OF R isp0] have "EncShannon (Suc (nat (ri - isp))) ptable isp ri codes2 = Some codes'" .
    moreover from l1 l2 have "Suc (nat (ri - isp)) \<le> nat (ri - li)" by arith
    ultimately have R': "EncShannon (nat (ri - li)) ptable isp ri codes2 = Some codes'"
      by (rule EncShannon_more_depth)
    from EncShannon_recurses [OF ne, of "nat (ri - li)" ptable codes] sp L' R'
    show ?thesis by simp
  qed
qed

section \<open>The recursion only appends\<close>

lemma fold_codes_append_prefix:
  "prefix (map_at [] codes c) (map_at [] (fold (\<lambda>i. codes_append (key i) (b i)) is codes) c)"
proof (induction "is" arbitrary: codes)
  case Nil
  show ?case by simp
next
  case (Cons j js)
  have "prefix (map_at [] codes c) (map_at [] (codes_append (key j) (b j) codes) c)"
    by (simp add: map_at_codes_append)
  also note Cons.IH [of "codes_append (key j) (b j) codes"]
  finally show ?case by simp
qed

lemma EncShannon_split_prefix:
  assumes "0 \<le> li" "li - 1 \<le> ri"
  shows "prefix (map_at [] codes c) (map_at [] (snd (EncShannon_split ptable li ri codes)) c)"
  by (simp add: EncShannon_split_closed [OF assms] fold_codes_append_prefix)

text \<open>A call that returns has left every codeword as it was or made it longer.\<close>

lemma EncShannon_appends:
  "EncShannon depth ptable li ri codes = Some codes' \<Longrightarrow> 0 \<le> li \<Longrightarrow>
   prefix (map_at [] codes c) (map_at [] codes' c)"
proof (induction depth arbitrary: li ri codes codes')
  case 0
  then show ?case by simp
next
  case (Suc depth)
  note run = Suc.prems(1) and li = Suc.prems(2)
  from run have le: "li \<le> ri" by (rule EncShannon_Some_range)
  consider (one) "li = ri" | (two) "ri - li = 1" | (more) "li \<noteq> ri" "ri - li \<noteq> 1"
    by blast
  then show ?case
  proof cases
    case one
    with run show ?thesis by simp
  next
    case two
    with run have "codes' = codes_append (ch (ptable ! nat ri)) (CHR ''1'')
               (codes_append (ch (ptable ! nat li)) (CHR ''0'') codes)"
      by simp
    then show ?thesis by (simp add: map_at_codes_append)
  next
    case more
    obtain isp codes1 where sp: "EncShannon_split ptable li ri codes = (isp, codes1)"
      by (cases "EncShannon_split ptable li ri codes")
    from run EncShannon_recurses [OF more, of depth ptable codes] sp
    obtain codes2 where L: "EncShannon depth ptable li (isp - 1) codes1 = Some codes2"
      and R: "EncShannon depth ptable isp ri codes2 = Some codes'"
      by (auto split: option.splits)
    from L have "li \<le> isp - 1" by (rule EncShannon_Some_range)
    with li have isp0: "0 \<le> isp" by simp
    from le have "li - 1 \<le> ri" by simp
    from EncShannon_split_prefix [OF li this, of codes c ptable] sp
    have "prefix (map_at [] codes c) (map_at [] codes1 c)" by simp
    also note Suc.IH [OF L li]
    also note Suc.IH [OF R isp0]
    finally show ?thesis .
  qed
qed

text \<open>
  A call on two elements or more that returns has left no element of its range with an
  empty codeword: the call itself appends a bit to each, and the recursion only appends.
\<close>

lemma EncShannon_nonempty:
  assumes dist: "distinct (map ch ptable)" and li: "0 \<le> li" and lt: "li < ri"
    and ri: "ri < int (length ptable)"
    and run: "EncShannon depth ptable li ri codes = Some codes'"
    and i: "li \<le> i" "i \<le> ri"
  shows "map_at [] codes' (ch (ptable ! nat i)) \<noteq> []"
proof -
  let ?key = "\<lambda>i. ch (ptable ! nat i)"
  from run obtain d where depth: "depth = Suc d" by (cases depth) simp_all
  show ?thesis
  proof (cases "ri - li = 1")
    case True
    then have r: "ri = li + 1" by simp
    from run True have c': "codes' = codes_append (?key ri) (CHR ''1'')
               (codes_append (?key li) (CHR ''0'') codes)"
      by (simp add: depth)
    from i r have "i = li \<or> i = ri" by auto
    then show ?thesis by (auto simp: c' map_at_codes_append)
  next
    case False
    with lt have ne: "li \<noteq> ri" "ri - li \<noteq> 1" by simp_all
    obtain isp codes1 where sp: "EncShannon_split ptable li ri codes = (isp, codes1)"
      by (cases "EncShannon_split ptable li ri codes")
    from run EncShannon_recurses [OF ne, of d ptable codes] sp
    obtain codes2 where L: "EncShannon d ptable li (isp - 1) codes1 = Some codes2"
      and R: "EncShannon d ptable isp ri codes2 = Some codes'"
      by (auto simp: depth split: option.splits)
    from L have "li \<le> isp - 1" by (rule EncShannon_Some_range)
    with li have isp0: "0 \<le> isp" by simp
    from EncShannon_split_at [OF dist li ri i, of codes] sp
    have "map_at [] codes1 (?key i) \<noteq> []" by simp
    moreover have "prefix (map_at [] codes1 (?key i)) (map_at [] codes' (?key i))"
      using EncShannon_appends [OF L li, of "?key i"] EncShannon_appends [OF R isp0, of "?key i"]
      by (rule prefix_order.trans)
    ultimately show ?thesis by auto
  qed
qed

section \<open>Rounding to \<^verbatim>\<open>float\<close>\<close>

text \<open>
  The laws of rounding that the proofs use, for positive numbers: the rounded value is
  positive and in the closed binade of the number; rounding is monotone; a rounded value
  rounds to itself; and halving commutes with rounding.
\<close>
lemma exponent_bounds:
  assumes "0 < r"
  shows "2 powi exponent r \<le> r \<and> r < 2 powi (exponent r + 1)"
proof -
  obtain a b where q: "quotient_of r = (a, b)" by (cases "quotient_of r")
  then have b: "0 < b" by (rule quotient_of_denom_pos)
  from q have r: "r = of_int a / of_int b" by (rule quotient_of_div)
  with assms b have a: "0 < a" by (simp add: zero_less_divide_iff)
  define la lb where "la = bitlen a" and "lb = bitlen b"
  from bitlen_bounds [OF a] have "2 ^ nat (la - 1) \<le> a" "a < 2 ^ nat la"
    by (simp_all add: la_def)
  then have "(of_int (2 ^ nat (la - 1)) :: rat) \<le> of_int a" "(of_int a :: rat) < of_int (2 ^ nat la)"
    by (simp_all only: of_int_le_iff of_int_less_iff)
  moreover from a have "1 \<le> la" unfolding la_def by (auto simp: bitlen_alt_def)
  ultimately have A: "(2::rat) powi (la - 1) \<le> of_int a" "(of_int a :: rat) < 2 powi la"
    by (simp_all add: power_int_nonneg_exp)
  from bitlen_bounds [OF b] have "2 ^ nat (lb - 1) \<le> b" "b < 2 ^ nat lb"
    by (simp_all add: lb_def)
  then have "(of_int (2 ^ nat (lb - 1)) :: rat) \<le> of_int b" "(of_int b :: rat) < of_int (2 ^ nat lb)"
    by (simp_all only: of_int_le_iff of_int_less_iff)
  moreover from b have "1 \<le> lb" unfolding lb_def by (auto simp: bitlen_alt_def)
  ultimately have B: "(2::rat) powi (lb - 1) \<le> of_int b" "(of_int b :: rat) < 2 powi lb"
    by (simp_all add: power_int_nonneg_exp)
  have bpos: "(0::rat) < of_int b" using b by simp
  have apos: "(0::rat) < of_int a" using a by simp
  have up: "r < 2 powi (la - lb + 1)"
  proof -
    have "of_int a < (2::rat) powi la" by (rule A(2))
    also have "\<dots> = 2 powi (la - lb + 1) * 2 powi (lb - 1)"
      by (simp add: power_int_add [symmetric])
    also have "\<dots> \<le> 2 powi (la - lb + 1) * of_int b"
      using B(1) by (intro mult_left_mono) simp_all
    finally show ?thesis using bpos by (simp add: r pos_divide_less_eq)
  qed
  have lo: "2 powi (la - lb - 1) < r"
  proof -
    have "(2::rat) powi (la - lb - 1) * of_int b < 2 powi (la - lb - 1) * 2 powi lb"
      using B(2) by (intro mult_strict_left_mono) simp_all
    also have "\<dots> = 2 powi (la - 1)"
      by (simp add: power_int_add [symmetric])
    also have "\<dots> \<le> of_int a" by (rule A(1))
    finally show ?thesis using bpos by (simp add: r pos_less_divide_eq)
  qed
  have e: "exponent r = (if 2 powi (la - lb) \<le> r then la - lb else la - lb - 1)"
    by (simp add: exponent_def q la_def lb_def)
  show ?thesis
  proof (cases "2 powi (la - lb) \<le> r")
    case True
    with up e show ?thesis by simp
  next
    case False
    with lo e show ?thesis by simp
  qed
qed

lemma exponent_unique:
  assumes "0 < r" "2 powi e \<le> r" "r < 2 powi (e + 1)"
  shows "exponent r = e"
proof (rule ccontr)
  assume ne: "exponent r \<noteq> e"
  note b = exponent_bounds [OF assms(1)]
  show False
  proof (cases "exponent r < e")
    case True
    then have "(2::rat) powi (exponent r + 1) \<le> 2 powi e"
      by (intro power_int_increasing) simp_all
    with b assms(2) show False by simp
  next
    case False
    with ne have "(2::rat) powi (e + 1) \<le> 2 powi exponent r"
      by (intro power_int_increasing) simp_all
    with b assms(3) show False by simp
  qed
qed

lemma round_half_even_near:
  "of_int (round_half_even q) \<le> q + 1/2 \<and> q - 1/2 \<le> of_int (round_half_even q)"
proof -
  define f where "f = \<lfloor>q\<rfloor>"
  define d where "d = q - of_int f"
  have fb: "of_int f \<le> q" "q < of_int f + 1" unfolding f_def by linarith+
  have r: "round_half_even q = (if d < 1/2 then f else if 1/2 < d then f + 1 else if even f then f else f + 1)"
    by (simp add: round_half_even_def Let_def f_def d_def)
  consider "d < 1/2" | "1/2 < d" | "d = 1/2" by linarith
  then show ?thesis
  proof cases
    case 1
    with r have "round_half_even q = f" by simp
    with fb 1 show ?thesis by (simp add: d_def)
  next
    case 2
    with r have "round_half_even q = f + 1" by simp
    with fb 2 show ?thesis by (simp add: d_def)
  next
    case 3
    with r have "round_half_even q = f \<or> round_half_even q = f + 1" by simp
    with fb 3 show ?thesis by (auto simp: d_def)
  qed
qed

lemma round_half_even_of_int [simp]: "round_half_even (of_int m) = m"
  by (simp add: round_half_even_def)

lemma round_half_even_mono:
  assumes "x \<le> y"
  shows "round_half_even x \<le> round_half_even y"
proof (cases "x = y")
  case True
  then show ?thesis by simp
next
  case False
  with assms have lt: "x < y" by simp
  show ?thesis
  proof (rule ccontr)
    assume "\<not> round_half_even x \<le> round_half_even y"
    then have "round_half_even y + 1 \<le> round_half_even x" by simp
    then have "(of_int (round_half_even y) :: rat) + 1 \<le> of_int (round_half_even x)"
      by (metis of_int_1 of_int_add of_int_le_iff)
    with round_half_even_near [of x] round_half_even_near [of y] lt show False by linarith
  qed
qed

lemma round_half_even_ge: "of_int n \<le> q \<Longrightarrow> n \<le> round_half_even q"
  using round_half_even_mono [of "of_int n" q] by simp

lemma round_half_even_le: "q \<le> of_int n \<Longrightarrow> round_half_even q \<le> n"
  using round_half_even_mono [of q "of_int n"] by simp

lemma significand_range:
  assumes "0 < r"
  defines "u \<equiv> 2 powi (exponent r - 23)"
  shows "0 < u" "2 ^ 23 \<le> r / u" "r / u < 2 ^ 24"
    "2 ^ 23 \<le> round_half_even (r / u)" "round_half_even (r / u) \<le> 2 ^ 24"
proof -
  show u: "0 < u" by (simp add: u_def)
  have e: "2 powi exponent r = 2 ^ 23 * u" "2 powi (exponent r + 1) = 2 ^ 24 * u"
    by (simp_all add: u_def power_int_diff power_int_add)
  from exponent_bounds [OF assms(1)] e u show lo: "2 ^ 23 \<le> r / u" and hi: "r / u < 2 ^ 24"
    by (simp_all add: pos_le_divide_eq pos_divide_less_eq)
  from lo have "(of_int (2 ^ 23) :: rat) \<le> r / u" by simp
  then show "2 ^ 23 \<le> round_half_even (r / u)" by (rule round_half_even_ge)
  from hi have "r / u \<le> (of_int (2 ^ 24) :: rat)" by simp
  then show "round_half_even (r / u) \<le> 2 ^ 24" by (rule round_half_even_le)
qed

lemma round32_pos_eq: "0 < r \<Longrightarrow> round32 r = of_int (round_half_even (r / 2 powi (exponent r - 23))) * 2 powi (exponent r - 23)"
  by (simp add: round32_def Let_def)

lemma round32_bounds:
  assumes "0 < r"
  shows "2 powi exponent r \<le> round32 r" "round32 r \<le> 2 powi (exponent r + 1)"
proof -
  define u :: rat where "u = 2 powi (exponent r - 23)"
  note m = significand_range [OF assms, folded u_def]
  have e: "2 powi exponent r = 2 ^ 23 * u" "2 powi (exponent r + 1) = 2 ^ 24 * u"
    by (simp_all add: u_def power_int_diff power_int_add)
  have f: "round32 r = of_int (round_half_even (r / u)) * u"
    using assms by (simp add: round32_pos_eq u_def)
  from m(4) have "(of_int (2 ^ 23) :: rat) \<le> of_int (round_half_even (r / u))"
    by (simp only: of_int_le_iff)
  with m(1) show "2 powi exponent r \<le> round32 r"
    unfolding e f by (intro mult_right_mono) simp_all
  from m(5) have "(of_int (round_half_even (r / u)) :: rat) \<le> of_int (2 ^ 24)"
    by (simp only: of_int_le_iff)
  with m(1) show "round32 r \<le> 2 powi (exponent r + 1)"
    unfolding e f by (intro mult_right_mono) simp_all
qed

lemma round32_pos: "0 < r \<Longrightarrow> 0 < round32 r"
  using round32_bounds(1) [of r] zero_less_power_int [of "2::rat" "exponent r"] by linarith

lemma round32_mono:
  assumes "0 < r" "r \<le> s"
  shows "round32 r \<le> round32 s"
proof -
  from assms have s: "0 < s" by simp
  note br = exponent_bounds [OF assms(1)] and bs = exponent_bounds [OF s]
  have le: "exponent r \<le> exponent s"
  proof (rule ccontr)
    assume "\<not> exponent r \<le> exponent s"
    then have "(2::rat) powi (exponent s + 1) \<le> 2 powi exponent r"
      by (intro power_int_increasing) simp_all
    with br bs assms(2) show False by simp
  qed
  show ?thesis
  proof (cases "exponent r = exponent s")
    case True
    define u :: rat where "u = 2 powi (exponent s - 23)"
    have u: "0 < u" by (simp add: u_def)
    from assms(2) u have "r / u \<le> s / u" by (simp add: divide_right_mono)
    then have "round_half_even (r / u) \<le> round_half_even (s / u)" by (rule round_half_even_mono)
    then have "(of_int (round_half_even (r / u)) :: rat) \<le> of_int (round_half_even (s / u))"
      by (simp only: of_int_le_iff)
    with u have "of_int (round_half_even (r / u)) * u \<le> of_int (round_half_even (s / u)) * u"
      by (intro mult_right_mono) simp_all
    then show ?thesis using assms(1) s True by (simp add: round32_pos_eq u_def)
  next
    case False
    with le have "(2::rat) powi (exponent r + 1) \<le> 2 powi exponent s"
      by (intro power_int_increasing) simp_all
    with round32_bounds(2) [OF assms(1)] round32_bounds(1) [OF s] show ?thesis by simp
  qed
qed

lemma round32_of_significand:
  assumes "2 ^ 23 \<le> m" "m < 2 ^ 24"
  shows "round32 (of_int m * 2 powi (e - 23)) = of_int m * 2 powi (e - 23)"
proof -
  define u :: rat where "u = 2 powi (e - 23)"
  have u: "0 < u" by (simp add: u_def)
  from assms have m: "(2 ^ 23 :: rat) \<le> of_int m" "(of_int m :: rat) < 2 ^ 24"
    by (metis of_int_le_iff of_int_numeral of_int_power, metis of_int_less_iff of_int_numeral of_int_power)
  then have pos: "0 < of_int m * u" using u by (intro mult_pos_pos) simp_all
  have e: "2 powi e = 2 ^ 23 * u" "2 powi (e + 1) = 2 ^ 24 * u"
    by (simp_all add: u_def power_int_diff power_int_add)
  have "exponent (of_int m * u) = e"
  proof (rule exponent_unique [OF pos])
    show "2 powi e \<le> of_int m * u" unfolding e using m(1) u by (intro mult_right_mono) simp_all
    show "of_int m * u < 2 powi (e + 1)" unfolding e using m(2) u by (intro mult_strict_right_mono) simp_all
  qed
  with pos u show ?thesis
    by (simp add: round32_pos_eq u_def [symmetric])
qed

lemma round32_idem:
  assumes "0 < r"
  shows "round32 (round32 r) = round32 r"
proof -
  define u :: rat where "u = 2 powi (exponent r - 23)"
  define m where "m = round_half_even (r / u)"
  note mr = significand_range [OF assms, folded u_def, folded m_def]
  have f: "round32 r = of_int m * 2 powi (exponent r - 23)"
    using assms by (simp add: round32_pos_eq u_def m_def)
  show ?thesis
  proof (cases "m < 2 ^ 24")
    case True
    with mr(4) show ?thesis unfolding f by (intro round32_of_significand)
  next
    case False
    with mr(5) have m: "m = 2 ^ 24" by simp
    have "round32 r = of_int (2 ^ 23) * 2 powi (exponent r + 1 - 23)"
      unfolding f m by (simp add: power_int_diff power_int_add)
    moreover have "round32 (of_int (2 ^ 23) * 2 powi (exponent r + 1 - 23)) = of_int (2 ^ 23) * 2 powi (exponent r + 1 - 23)"
      by (rule round32_of_significand) simp_all
    ultimately show ?thesis by simp
  qed
qed

lemma round32_half:
  assumes "0 < r"
  shows "round32 (r * (1/2)) = round32 r * (1/2)"
proof -
  from assms have h: "0 < r * (1/2)" by simp
  note b = exponent_bounds [OF assms]
  have "exponent (r * (1/2)) = exponent r - 1"
  proof (rule exponent_unique [OF h])
    from b show "2 powi (exponent r - 1) \<le> r * (1 / 2)" by (simp add: power_int_diff)
    from b show "r * (1 / 2) < 2 powi (exponent r - 1 + 1)" by (simp add: power_int_add)
  qed
  moreover have "r * (1/2) / 2 powi (exponent r - 1 - 23) = r / 2 powi (exponent r - 23)"
    by (simp add: power_int_diff)
  moreover have "(2::rat) powi (exponent r - 1 - 23) = 2 powi (exponent r - 23) * (1/2)"
    by (simp add: power_int_diff)
  ultimately show ?thesis using assms h
    by (simp only: round32_pos_eq)
qed

section \<open>Sums of \<^verbatim>\<open>float\<close> probabilities\<close>

lemma float_val_zero: "float_val 0 = 0"
  by (simp add: zero_float_def)

lemma float_val_plus: "float_val (x + y) = round32 (float_val x + float_val y)"
  by (simp add: plus_float_def)

lemma half_f_float: "(half_f :: float) = Float (1 / 2)"
  by code_simp

lemma float_val_half: "float_val (x * half_f) = round32 (float_val x * (1 / 2))"
  by (simp add: half_f_float times_float_def)

lemma float_divide_2: "x / Float 2 = x * (half_f :: float)"
  by (simp add: half_f_float times_float_def divide_float_def)

lemma float_add_pos:
  assumes "0 \<le> s" "round32 s = s" "0 < x"
  shows "s \<le> round32 (s + x)" "0 < round32 (s + x)"
    "round32 (round32 (s + x)) = round32 (s + x)"
proof -
  from assms have pos: "0 < s + x" by simp
  show "0 < round32 (s + x)" by (rule round32_pos [OF pos])
  show "round32 (round32 (s + x)) = round32 (s + x)" by (rule round32_idem [OF pos])
  show "s \<le> round32 (s + x)"
  proof (cases "s = 0")
    case True
    with round32_pos [OF pos] show ?thesis by simp
  next
    case False
    with assms(1) have "0 < s" by simp
    moreover from assms(3) have "s \<le> s + x" by simp
    ultimately have "round32 s \<le> round32 (s + x)" by (rule round32_mono)
    with assms(2) show ?thesis by simp
  qed
qed

lemma positive_nth:
  "positive ptable \<Longrightarrow> 0 \<le> i \<Longrightarrow> i < int (length ptable) \<Longrightarrow> 0 < p (ptable ! nat i)"
  by (simp add: positive_def)

lemma positive_float_nth:
  fixes ptable :: "float pnode list"
  shows "positive ptable \<Longrightarrow> 0 \<le> i \<Longrightarrow> i < int (length ptable) \<Longrightarrow>
         0 < float_val (p (ptable ! nat i))"
  using positive_nth [of ptable i] by (simp add: less_float_def float_val_zero)

text \<open>
  With positive probabilities, every running sum is positive and is a rounded value, and
  the running sums do not decrease. (They may stay the same: a small probability can be
  absorbed by the rounding.)
\<close>

lemma sum_probs_float:
  fixes ptable :: "float pnode list"
  assumes pos: "positive ptable" and li: "0 \<le> li" and le: "li \<le> r"
  shows "r < int (length ptable) \<Longrightarrow>
         0 < float_val (sum_probs ptable li r)
         \<and> round32 (float_val (sum_probs ptable li r)) = float_val (sum_probs ptable li r)"
  using le
proof (induction r rule: int_ge_induct)
  case base
  from base li have x: "0 < float_val (p (ptable ! nat li))"
    by (intro positive_float_nth [OF pos]) simp_all
  from sum_probs_snoc [of li "li - 1" ptable]
  have "float_val (sum_probs ptable li li) = round32 (0 + float_val (p (ptable ! nat li)))"
    by (simp add: sum_probs_empty float_val_plus float_val_zero)
  with float_add_pos(2,3) [of 0 "float_val (p (ptable ! nat li))"] x show ?case
    by (simp add: round32_def)
next
  case (step r)
  from step li have x: "0 < float_val (p (ptable ! nat (r + 1)))"
    by (intro positive_float_nth [OF pos]) simp_all
  from step have s: "0 \<le> float_val (sum_probs ptable li r)"
    "round32 (float_val (sum_probs ptable li r)) = float_val (sum_probs ptable li r)"
    by simp_all
  from step.hyps have "float_val (sum_probs ptable li (r + 1))
      = round32 (float_val (sum_probs ptable li r) + float_val (p (ptable ! nat (r + 1))))"
    by (simp add: sum_probs_snoc float_val_plus)
  with float_add_pos(2,3) [OF s x] show ?case by simp
qed

lemma sum_probs_step:
  fixes ptable :: "float pnode list"
  assumes pos: "positive ptable" and li: "0 \<le> li" and le: "li \<le> r"
    and r: "r + 1 < int (length ptable)"
  shows "sum_probs ptable li r \<le> sum_probs ptable li (r + 1)"
proof -
  from r li le have x: "0 < float_val (p (ptable ! nat (r + 1)))"
    by (intro positive_float_nth [OF pos]) simp_all
  from r have "r < int (length ptable)" by simp
  from sum_probs_float [OF pos li le this]
  have s: "0 \<le> float_val (sum_probs ptable li r)"
    "round32 (float_val (sum_probs ptable li r)) = float_val (sum_probs ptable li r)"
    by simp_all
  from le have "float_val (sum_probs ptable li (r + 1))
      = round32 (float_val (sum_probs ptable li r) + float_val (p (ptable ! nat (r + 1))))"
    by (simp add: sum_probs_snoc float_val_plus)
  with float_add_pos(1) [OF s x] show ?thesis by (simp add: less_eq_float_def)
qed

lemma sum_probs_mono:
  fixes ptable :: "float pnode list"
  assumes "positive ptable" "0 \<le> li" "li \<le> i" "i \<le> j"
  shows "j < int (length ptable) \<Longrightarrow> sum_probs ptable li i \<le> sum_probs ptable li j"
  using assms(4)
proof (induction j rule: int_ge_induct)
  case base
  show ?case by simp
next
  case (step j)
  from step assms have "sum_probs ptable li j \<le> sum_probs ptable li (j + 1)"
    by (intro sum_probs_step) simp_all
  with step show ?case by simp
qed

text \<open>A positive rounded value exceeds its half, which is itself a rounded value.\<close>

lemma not_le_half:
  fixes x :: float
  assumes "0 < float_val x" "round32 (float_val x) = float_val x"
  shows "\<not> x \<le> x * half_f"
proof -
  from round32_half [OF assms(1)] assms(2)
  have "float_val (x * half_f) = float_val x * (1 / 2)"
    by (simp add: float_val_half)
  with assms(1) show ?thesis by (simp add: less_eq_float_def)
qed

text \<open>
  So a split point exists: the last running sum, the full sum, exceeds its half. The elements
  before the split point get \<open>0\<close> and the elements from it on get \<open>1\<close>.
\<close>

lemma split_point:
  fixes ptable :: "float pnode list"
  assumes pos: "positive ptable" and li: "0 \<le> li" "li \<le> ri" and ri: "ri < int (length ptable)"
  defines "phalf \<equiv> sum_probs ptable li ri * half_f"
  shows "\<exists>k. find (\<lambda>i. \<not> sum_probs ptable li i \<le> phalf) [li..ri] = Some k
     \<and> li \<le> k \<and> k \<le> ri
     \<and> (\<forall>i. li \<le> i \<and> i \<le> ri \<longrightarrow> (sum_probs ptable li i \<le> phalf) = (i < k))"
proof -
  let ?P = "\<lambda>i. \<not> sum_probs ptable li i \<le> phalf"
  have last: "?P ri"
    unfolding phalf_def using sum_probs_float [OF pos li ri] by (intro not_le_half) simp_all
  have "find ?P [li..ri] \<noteq> None"
    using last li by (auto simp: find_None_iff)
  then obtain k where k: "find ?P [li..ri] = Some k" by auto
  note kk = find_upto_Some [OF k]
  have "(sum_probs ptable li i \<le> phalf) = (i < k)" if "li \<le> i" "i \<le> ri" for i
  proof (cases "i < k")
    case True
    with kk that show ?thesis by auto
  next
    case False
    with kk that ri have "sum_probs ptable li k \<le> sum_probs ptable li i"
      by (intro sum_probs_mono [OF pos li(1)]) simp_all
    with kk False show ?thesis by auto
  qed
  with k kk show ?thesis by blast
qed

lemma search_center_split:
  fixes ptable :: "float pnode list"
  assumes pos: "positive ptable" and dist: "distinct (map ch ptable)"
    and li: "0 \<le> li" "li \<le> ri" and ri: "ri < int (length ptable)"
  shows "\<exists>psum k codes1.
     search_center ptable (sum_probs ptable li ri * half_f) li ri codes = (psum, k, codes1)
     \<and> li \<le> k \<and> k \<le> ri
     \<and> (\<forall>i. li \<le> i \<and> i \<le> ri \<longrightarrow>
           map_at [] codes1 (ch (ptable ! nat i))
             = map_at [] codes (ch (ptable ! nat i)) @ [if i < k then CHR ''0'' else CHR ''1''])
     \<and> (\<forall>c. (\<forall>i. li \<le> i \<and> i \<le> ri \<longrightarrow> c \<noteq> ch (ptable ! nat i)) \<longrightarrow>
           map_at [] codes1 c = map_at [] codes c)"
proof -
  let ?phalf = "sum_probs ptable li ri * half_f"
  let ?key = "\<lambda>i. ch (ptable ! nat i)"
  let ?bit = "\<lambda>i. if sum_probs ptable li i \<le> ?phalf then CHR ''0'' else CHR ''1''"
  let ?codes1 = "fold (\<lambda>i. codes_append (?key i) (?bit i)) [li..ri] codes"
  from split_point [OF pos li ri] obtain k where k:
    "find (\<lambda>i. \<not> sum_probs ptable li i \<le> ?phalf) [li..ri] = Some k" "li \<le> k" "k \<le> ri"
    "\<forall>i. li \<le> i \<and> i \<le> ri \<longrightarrow> (sum_probs ptable li i \<le> ?phalf) = (i < k)"
    by blast
  from li have "li - 1 \<le> ri" by simp
  from search_center_closed [OF li(1) this, of ptable ?phalf codes] k(1)
  have sc: "search_center ptable ?phalf li ri codes = (sum_probs ptable li ri, k, ?codes1)"
    by simp
  have dk: "distinct (map ?key [li..ri])"
    by (rule distinct_range_keys [OF dist li(1) ri])
  have at: "map_at [] ?codes1 (?key i) = map_at [] codes (?key i) @ [if i < k then CHR ''0'' else CHR ''1'']"
    if "li \<le> i" "i \<le> ri" for i
  proof -
    from that have "i \<in> set [li..ri]" by simp
    from fold_codes_append_at [OF dk this, of ?bit codes] k(4) that show ?thesis
      by simp
  qed
  have other: "map_at [] ?codes1 c = map_at [] codes c"
    if "\<forall>i. li \<le> i \<and> i \<le> ri \<longrightarrow> c \<noteq> ?key i" for c
  proof -
    from that have "c \<notin> ?key ` set [li..ri]" by auto
    then show ?thesis by (rule fold_codes_append_other)
  qed
  from sc k(2,3) at other show ?thesis by blast
qed

section \<open>What a returning call of the builder has done\<close>

lemma EncShannon_effect:
  fixes ptable :: "float pnode list"
  assumes pos: "positive ptable" and dist: "distinct (map ch ptable)"
  shows "EncShannon depth ptable li ri codes = Some codes' \<Longrightarrow> 0 \<le> li \<Longrightarrow>
         ri < int (length ptable) \<Longrightarrow> \<exists>suf. range_codes ptable li ri codes codes' suf"
proof (induction depth arbitrary: li ri codes codes')
  case 0
  then show ?case by simp
next
  case (Suc depth)
  let ?key = "\<lambda>i. ch (ptable ! nat i)"
  note run = Suc.prems(1) and li0 = Suc.prems(2) and ri = Suc.prems(3)
  from run have le: "li \<le> ri" by (rule EncShannon_Some_range)
  consider (one) "li = ri" | (two) "ri - li = 1" | (more) "li \<noteq> ri" "ri - li \<noteq> 1"
    by blast
  then show ?case
  proof cases
    case one
    with run have "codes' = codes" by simp
    with one have "range_codes ptable li ri codes codes' (\<lambda>i. [])"
      by (simp add: range_codes_def)
    then show ?thesis by blast
  next
    case two
    then have r: "ri = li + 1" by simp
    from run two have c': "codes' = codes_append (?key ri) (CHR ''1'')
               (codes_append (?key li) (CHR ''0'') codes)"
      by simp
    have ne: "?key li \<noteq> ?key ri"
      using r li0 ri by (intro range_keys_neq [OF dist]) simp_all
    have "range_codes ptable li ri codes codes' (\<lambda>i. if i = li then ''0'' else ''1'')"
      unfolding range_codes_def
    proof (intro conjI allI impI)
      fix i assume "li \<le> i \<and> i \<le> ri"
      with r have "i = li \<or> i = ri" by auto
      with ne r show "map_at [] codes' (?key i) = map_at [] codes (?key i) @ (if i = li then ''0'' else ''1'')"
        by (auto simp: c' map_at_codes_append)
    next
      fix i show "set (if i = li then ''0'' else ''1'') \<subseteq> {CHR ''0'', CHR ''1''}" by simp
    next
      fix i j assume "li \<le> i \<and> i \<le> ri \<and> li \<le> j \<and> j \<le> ri \<and> i \<noteq> j"
      then show "\<not> prefix (if i = li then ''0'' else ''1'') (if j = li then ''0'' else ''1'')"
        using r by auto
    next
      fix c assume "\<forall>i. li \<le> i \<and> i \<le> ri \<longrightarrow> c \<noteq> ?key i"
      with le have "c \<noteq> ?key li" "c \<noteq> ?key ri" by auto
      then show "map_at [] codes' c = map_at [] codes c"
        by (simp add: c' map_at_codes_append)
    qed
    then show ?thesis by blast
  next
    case more
    from search_center_split [OF pos dist li0 le ri, of codes]
    obtain psum k codes1 where
      sc: "search_center ptable (sum_probs ptable li ri * half_f) li ri codes = (psum, k, codes1)"
      and k: "li \<le> k" "k \<le> ri"
      and at1: "\<And>i. li \<le> i \<Longrightarrow> i \<le> ri \<Longrightarrow> map_at [] codes1 (?key i)
             = map_at [] codes (?key i) @ [if i < k then CHR ''0'' else CHR ''1'']"
      and other1: "\<And>c. (\<forall>i. li \<le> i \<and> i \<le> ri \<longrightarrow> c \<noteq> ?key i) \<Longrightarrow>
             map_at [] codes1 c = map_at [] codes c"
      by blast
    from k li0 have k0: "0 \<le> k" by simp
    from run EncShannon_general [OF more sc k0, of depth]
    obtain codes2 where L: "EncShannon depth ptable li (k - 1) codes1 = Some codes2"
      and R: "EncShannon depth ptable k ri codes2 = Some codes'"
      by (auto split: option.splits)
    from L have lk: "li \<le> k - 1" by (rule EncShannon_Some_range)
    from Suc.IH [OF L li0] k ri obtain sufL where
      sufL: "range_codes ptable li (k - 1) codes1 codes2 sufL" by auto
    from Suc.IH [OF R k0 ri] obtain sufR where
      sufR: "range_codes ptable k ri codes2 codes' sufR" by auto
    define suf where "suf = (\<lambda>i. if i < k then CHR ''0'' # sufL i else CHR ''1'' # sufR i)"
    have keys_LR: "?key i \<noteq> ?key j" if "li \<le> i" "i < k" "k \<le> j" "j \<le> ri" for i j
      using that li0 ri by (intro range_keys_neq [OF dist]) simp_all
    have left: "map_at [] codes' (?key i) = map_at [] codes (?key i) @ suf i"
      if "li \<le> i" "i < k" for i
    proof -
      have "\<forall>j. k \<le> j \<and> j \<le> ri \<longrightarrow> ?key i \<noteq> ?key j"
        using keys_LR that by blast
      with sufR have "map_at [] codes' (?key i) = map_at [] codes2 (?key i)"
        unfolding range_codes_def by blast
      also from sufL that have "\<dots> = map_at [] codes1 (?key i) @ sufL i"
        unfolding range_codes_def by simp
      also from at1 [of i] that k have "\<dots> = map_at [] codes (?key i) @ suf i"
        by (simp add: suf_def)
      finally show ?thesis .
    qed
    have right: "map_at [] codes' (?key i) = map_at [] codes (?key i) @ suf i"
      if "k \<le> i" "i \<le> ri" for i
    proof -
      have "\<forall>j. li \<le> j \<and> j \<le> k - 1 \<longrightarrow> ?key i \<noteq> ?key j"
        using keys_LR [of _ i] that by (metis zle_diff1_eq)
      with sufL have c2: "map_at [] codes2 (?key i) = map_at [] codes1 (?key i)"
        unfolding range_codes_def by blast
      from sufR that have "map_at [] codes' (?key i) = map_at [] codes2 (?key i) @ sufR i"
        unfolding range_codes_def by simp
      also from at1 [of i] that k c2 have "\<dots> = map_at [] codes (?key i) @ suf i"
        by (simp add: suf_def)
      finally show ?thesis .
    qed
    have bits: "set (suf i) \<subseteq> {CHR ''0'', CHR ''1''}" if "li \<le> i" "i \<le> ri" for i
    proof (cases "i < k")
      case True
      with that sufL have "set (sufL i) \<subseteq> {CHR ''0'', CHR ''1''}"
        unfolding range_codes_def by simp
      with True show ?thesis by (simp add: suf_def)
    next
      case False
      with that sufR have "set (sufR i) \<subseteq> {CHR ''0'', CHR ''1''}"
        unfolding range_codes_def by simp
      with False show ?thesis by (simp add: suf_def)
    qed
    have pf: "\<not> prefix (suf i) (suf j)"
      if "li \<le> i" "i \<le> ri" "li \<le> j" "j \<le> ri" "i \<noteq> j" for i j
    proof (cases "i < k"; cases "j < k")
      assume a: "i < k" "j < k"
      with that sufL have "\<not> prefix (sufL i) (sufL j)"
        unfolding range_codes_def by simp
      with a show ?thesis by (simp add: suf_def)
    next
      assume a: "\<not> i < k" "\<not> j < k"
      with that sufR have "\<not> prefix (sufR i) (sufR j)"
        unfolding range_codes_def by simp
      with a show ?thesis by (simp add: suf_def)
    qed (simp_all add: suf_def)
    have other: "map_at [] codes' c = map_at [] codes c"
      if c: "\<forall>i. li \<le> i \<and> i \<le> ri \<longrightarrow> c \<noteq> ?key i" for c
    proof -
      from c k have "\<forall>i. k \<le> i \<and> i \<le> ri \<longrightarrow> c \<noteq> ?key i" by auto
      with sufR have "map_at [] codes' c = map_at [] codes2 c"
        unfolding range_codes_def by blast
      also from c k have "\<forall>i. li \<le> i \<and> i \<le> k - 1 \<longrightarrow> c \<noteq> ?key i" by auto
      with sufL have "map_at [] codes2 c = map_at [] codes1 c"
        unfolding range_codes_def by blast
      also from other1 [OF c] have "map_at [] codes1 c = map_at [] codes c" .
      finally show ?thesis .
    qed
    have "range_codes ptable li ri codes codes' suf"
      unfolding range_codes_def
    proof (intro conjI allI impI)
      fix i assume i: "li \<le> i \<and> i \<le> ri"
      then show "map_at [] codes' (?key i) = map_at [] codes (?key i) @ suf i"
        using left [of i] right [of i] by (cases "i < k") simp_all
      from i show "set (suf i) \<subseteq> {CHR ''0'', CHR ''1''}" using bits by simp
    next
      fix i j assume "li \<le> i \<and> i \<le> ri \<and> li \<le> j \<and> j \<le> ri \<and> i \<noteq> j"
      then show "\<not> prefix (suf i) (suf j)" using pf by simp
    next
      fix c assume "\<forall>i. li \<le> i \<and> i \<le> ri \<longrightarrow> c \<noteq> ?key i"
      then show "map_at [] codes' c = map_at [] codes c" by (rule other)
    qed
    then show ?thesis by blast
  qed
qed

section \<open>The builder's step and the specification\<close>

lemma foldl_plus_map:
  "foldl (+) a (map f xs) = fold (\<lambda>i s. s + f i) xs a"
  by (induction xs arbitrary: a) simp_all

lemma spec_running_sum_code: "spec_running_sum ptable lo i = sum_probs ptable lo i"
  by (simp add: spec_running_sum_def sum_probs_def foldl_plus_map)

lemma spec_total_code: "spec_total ptable lo hi = sum_probs ptable lo hi"
  by (simp add: spec_total_def sum_probs_def foldl_plus_map)

text \<open>Dividing a \<^verbatim>\<open>float\<close> by two and multiplying it by \<^verbatim>\<open>0.5f\<close> give the same value.\<close>

lemma spec_bit_code:
  "spec_bit ptable lo hi i =
     (if sum_probs ptable lo i \<le> sum_probs ptable lo hi * half_f then CHR ''0'' else CHR ''1'')"
  by (simp add: spec_bit_def spec_running_sum_code spec_total_code float_divide_2)

lemma spec_split_code:
  assumes "0 \<le> lo" "lo - 1 \<le> hi"
  shows "spec_split ptable lo hi = fst (EncShannon_split ptable lo hi codes)"
proof -
  have "(\<lambda>i. spec_bit ptable lo hi i = CHR ''1'')
      = (\<lambda>i. \<not> sum_probs ptable lo i \<le> sum_probs ptable lo hi * half_f)"
    by (rule ext) (simp add: spec_bit_code)
  then show ?thesis
    by (simp add: spec_split_def EncShannon_split_closed [OF assms] split: option.splits)
qed

text \<open>
  Claim C3 (the builder's step), in \<^verbatim>\<open>float\<close> arithmetic, for a table of distinct symbols
  and a range inside it. On a range of three elements or more, when a call of
  \<^verbatim>\<open>EncShannon\<close> reaches its recursive calls, its split point is the one the
  specification describes; the codeword of every element of the range is its codeword
  before the call followed by the bit the specification describes, and every other
  codeword is as before; and the call goes on with the calls on \<open>[lo, split - 1]\<close> and
  then \<open>[split, hi]\<close>. On a range of exactly two elements the call returns, the codeword
  of the first element is its codeword before the call followed by \<open>0\<close>, that of the
  second is followed by \<open>1\<close>, and every other codeword is as before.
\<close>

theorem EncShannon_follows_spec:
  fixes ptable :: "float pnode list"
  assumes dist: "distinct (map ch ptable)" and lo: "0 \<le> lo" and hi: "hi < int (length ptable)"
  shows "(2 \<le> hi - lo \<longrightarrow>
            (let (isp, codes1) = EncShannon_split ptable lo hi codes
             in isp = spec_split ptable lo hi
                \<and> (\<forall>i \<in> set [lo..hi].
                      map_at [] codes1 (ch (ptable ! nat i))
                        = map_at [] codes (ch (ptable ! nat i)) @ [spec_bit ptable lo hi i])
                \<and> (\<forall>c. c \<in> (\<lambda>i. ch (ptable ! nat i)) ` set [lo..hi]
                        \<or> map_at [] codes1 c = map_at [] codes c)
                \<and> EncShannon (Suc depth) ptable lo hi codes =
                    (case EncShannon depth ptable lo (spec_split ptable lo hi - 1) codes1 of
                       None \<Rightarrow> None
                     | Some codes2 \<Rightarrow>
                         EncShannon depth ptable (spec_split ptable lo hi) hi codes2)))
     \<and> (hi - lo = 1 \<longrightarrow>
          (\<exists>codes'. EncShannon (Suc depth) ptable lo hi codes = Some codes'
             \<and> map_at [] codes' (ch (ptable ! nat lo))
                  = map_at [] codes (ch (ptable ! nat lo)) @ ''0''
             \<and> map_at [] codes' (ch (ptable ! nat hi))
                  = map_at [] codes (ch (ptable ! nat hi)) @ ''1''
             \<and> (\<forall>c. c = ch (ptable ! nat lo) \<or> c = ch (ptable ! nat hi)
                     \<or> map_at [] codes' c = map_at [] codes c)))"
proof (intro conjI impI)
  assume two: "hi - lo = 1"
  let ?key = "\<lambda>i. ch (ptable ! nat i)"
  let ?codes' = "codes_append (?key hi) (CHR ''1'') (codes_append (?key lo) (CHR ''0'') codes)"
  from two have run: "EncShannon (Suc depth) ptable lo hi codes = Some ?codes'" by simp
  have ne: "?key lo \<noteq> ?key hi"
    using two lo hi by (intro range_keys_neq [OF dist]) simp_all
  then have "map_at [] ?codes' (?key lo) = map_at [] codes (?key lo) @ ''0''"
    "map_at [] ?codes' (?key hi) = map_at [] codes (?key hi) @ ''1''"
    "\<forall>c. c = ?key lo \<or> c = ?key hi \<or> map_at [] ?codes' c = map_at [] codes c"
    by (auto simp: map_at_codes_append)
  with run
  show "\<exists>codes'. EncShannon (Suc depth) ptable lo hi codes = Some codes'
             \<and> map_at [] codes' (?key lo) = map_at [] codes (?key lo) @ ''0''
             \<and> map_at [] codes' (?key hi) = map_at [] codes (?key hi) @ ''1''
             \<and> (\<forall>c. c = ?key lo \<or> c = ?key hi \<or> map_at [] codes' c = map_at [] codes c)"
    by blast
next
  assume three: "2 \<le> hi - lo"
  let ?key = "\<lambda>i. ch (ptable ! nat i)"
  obtain isp codes1 where sp: "EncShannon_split ptable lo hi codes = (isp, codes1)"
    by (cases "EncShannon_split ptable lo hi codes")
  from three have ne: "lo \<noteq> hi" "hi - lo \<noteq> 1" and r: "lo - 1 \<le> hi" by simp_all
  from spec_split_code [OF lo r, of ptable codes] sp
  have split: "isp = spec_split ptable lo hi" by simp
  have bits: "\<forall>i \<in> set [lo..hi].
      map_at [] codes1 (?key i) = map_at [] codes (?key i) @ [spec_bit ptable lo hi i]"
  proof
    fix i assume "i \<in> set [lo..hi]"
    then have "lo \<le> i" "i \<le> hi" by simp_all
    from EncShannon_split_at [OF dist lo hi this, of codes] sp
    show "map_at [] codes1 (?key i) = map_at [] codes (?key i) @ [spec_bit ptable lo hi i]"
      by (simp add: spec_bit_code)
  qed
  have other: "\<forall>c. c \<in> ?key ` set [lo..hi] \<or> map_at [] codes1 c = map_at [] codes c"
    using EncShannon_split_other [OF lo r, of _ ptable codes] sp by auto
  from EncShannon_recurses [OF ne, of depth ptable codes] sp
  have run: "EncShannon (Suc depth) ptable lo hi codes =
      (case EncShannon depth ptable lo (spec_split ptable lo hi - 1) codes1 of
         None \<Rightarrow> None
       | Some codes2 \<Rightarrow> EncShannon depth ptable (spec_split ptable lo hi) hi codes2)"
    by (simp add: split)
  from split bits other run
  show "let (isp, codes1) = EncShannon_split ptable lo hi codes
        in isp = spec_split ptable lo hi
           \<and> (\<forall>i \<in> set [lo..hi].
                 map_at [] codes1 (?key i) = map_at [] codes (?key i) @ [spec_bit ptable lo hi i])
           \<and> (\<forall>c. c \<in> ?key ` set [lo..hi] \<or> map_at [] codes1 c = map_at [] codes c)
           \<and> EncShannon (Suc depth) ptable lo hi codes =
               (case EncShannon depth ptable lo (spec_split ptable lo hi - 1) codes1 of
                  None \<Rightarrow> None
                | Some codes2 \<Rightarrow> EncShannon depth ptable (spec_split ptable lo hi) hi codes2)"
    unfolding sp by simp
qed

section \<open>The probability table of \<^verbatim>\<open>Encode\<close>\<close>

lemma count_step_keys:
  "fst ` set (fold (\<lambda>c freqs. map_put c (map_at 0 freqs c + 1) freqs) input m)
     = set input \<union> fst ` set m"
  by (induction input arbitrary: m) (simp_all add: keys_map_put)

lemma count_step_sorted:
  "key_sorted m \<Longrightarrow>
   key_sorted (fold (\<lambda>c freqs. map_put c (map_at 0 freqs c + 1) freqs) input m)"
  by (induction input arbitrary: m) (simp_all add: key_sorted_map_put)

lemma count_step_pos:
  "\<forall>e \<in> set m. (0::int) < snd e \<Longrightarrow>
   \<forall>e \<in> set (fold (\<lambda>c freqs. map_put c (map_at 0 freqs c + 1) freqs) input m). 0 < snd e"
proof (induction input arbitrary: m)
  case Nil
  then show ?case by simp
next
  case (Cons c input)
  from map_at_cases [of 0 m c] Cons.prems have "0 \<le> map_at 0 m c" by force
  then have "\<forall>e \<in> insert (c, map_at 0 m c + 1) (set m). 0 < snd e"
    using Cons.prems by simp
  with set_map_put [of c "map_at 0 m c + 1" m]
  have "\<forall>e \<in> set (map_put c (map_at 0 m c + 1) m). 0 < snd e" by blast
  from Cons.IH [OF this] show ?case by simp
qed

lemma count_chars_keys: "fst ` set (count_chars input) = set input"
  by (simp add: count_chars_def count_step_keys)

lemma count_chars_distinct: "distinct (map fst (count_chars input))"
  unfolding count_chars_def
  by (rule key_sorted_distinct, rule count_step_sorted) (simp add: key_sorted_def)

lemma count_chars_pos: "e \<in> set (count_chars input) \<Longrightarrow> 0 < snd e"
  using count_step_pos [of "[]" input] by (simp add: count_chars_def)

lemma set_qsort_insert: "set (qsort_insert cmp x ys) = insert x (set ys)"
  by (induction ys) auto

lemma set_qsort: "set (qsort cmp xs) = set xs"
  by (induction xs) (simp_all add: set_qsort_insert)

lemma distinct_map_qsort_insert:
  "distinct (map f (qsort_insert cmp x ys)) = (f x \<notin> f ` set ys \<and> distinct (map f ys))"
  by (induction ys) (auto simp: set_qsort_insert)

lemma distinct_map_qsort: "distinct (map f (qsort cmp xs)) = distinct (map f xs)"
  by (induction xs) (simp_all add: distinct_map_qsort_insert set_qsort)

lemma map_ch_build_ptable: "map ch (build_ptable freqs tot) = map fst freqs"
  by (simp add: build_ptable_def Let_def split_def)

lemma Encode_ptable_distinct: "distinct (map ch (Encode_ptable input))"
  by (simp add: Encode_ptable_def distinct_map_qsort map_ch_build_ptable count_chars_distinct)

lemma Encode_ptable_chars: "ch ` set (Encode_ptable input) = set input"
proof -
  have "ch ` set (Encode_ptable input)
          = set (map ch (build_ptable (count_chars input) (length input)))"
    by (simp add: Encode_ptable_def set_qsort)
  also have "\<dots> = set input"
    by (simp only: map_ch_build_ptable set_map count_chars_keys)
  finally show ?thesis .
qed

lemma length_Encode_ptable: "length (Encode_ptable input) = card (set input)"
proof -
  let ?t = "Encode_ptable input"
  have "length ?t = length (map ch ?t)" by simp
  also have "\<dots> = card (set (map ch ?t))"
    by (rule distinct_card [symmetric]) (rule Encode_ptable_distinct)
  also have "\<dots> = card (set input)"
    by (simp add: Encode_ptable_chars)
  finally show ?thesis .
qed

text \<open>
  Every probability of the table is positive: a count and the total are positive, their
  conversions to \<^verbatim>\<open>float\<close> are, and so is the rounded quotient.
\<close>

lemma Encode_ptable_positive: "positive (Encode_ptable input)"
proof -
  have "0 < p e" if "e \<in> set (build_ptable (count_chars input) (length input))" for e
  proof -
    from that obtain c n where cn: "(c, n) \<in> set (count_chars input)"
      and e: "e = \<lparr>ch = c, p = float_of_int n / float_of_int (int (length input))\<rparr>"
      by (auto simp: build_ptable_def Let_def)
    from count_chars_pos [OF cn] have "(0::rat) < of_int n" by simp
    then have n: "0 < round32 (of_int n)" by (rule round32_pos)
    from cn count_chars_keys [of input] have "c \<in> set input" by force
    then have "0 < length input" by (cases input) auto
    then have "(0::rat) < of_int (int (length input))" by simp
    then have "0 < round32 (of_int (int (length input)))" by (rule round32_pos)
    with n have "0 < round32 (of_int n) / round32 (of_int (int (length input)))" by simp
    then have "0 < round32 (round32 (of_int n) / round32 (of_int (int (length input))))"
      by (rule round32_pos)
    then show ?thesis
      by (simp add: e float_of_int_def divide_float_def less_float_def zero_float_def)
  qed
  then show ?thesis by (simp add: positive_def Encode_ptable_def set_qsort)
qed

text \<open>The sort leaves the table in descending order of probability.\<close>

lemma sorted_qsort_insert:
  fixes ys :: "('p::linorder) pnode list"
  assumes "sorted_wrt (\<lambda>a b. p b \<le> p a) ys"
  shows "sorted_wrt (\<lambda>a b. p b \<le> p a) (qsort_insert pnode_compare x ys)"
  using assms
proof (induction ys)
  case Nil
  show ?case by simp
next
  case (Cons y ys)
  show ?case
  proof (cases "pnode_compare x y \<le> 0")
    case True
    then have "p y \<le> p x" by (simp add: pnode_compare_def split: if_splits)
    with Cons.prems True show ?thesis by auto
  next
    case False
    then have "p x \<le> p y" by (simp add: pnode_compare_def split: if_splits)
    with Cons False show ?thesis by (auto simp: set_qsort_insert)
  qed
qed

lemma sorted_qsort:
  fixes xs :: "('p::linorder) pnode list"
  shows "sorted_wrt (\<lambda>a b. p b \<le> p a) (qsort pnode_compare xs)"
  by (induction xs) (simp_all add: sorted_qsort_insert)

text \<open>
  Claim C9 (monotonic ordering). For every input, the probability table that
  \<^verbatim>\<open>Encode\<close> builds and sorts is in descending order of probability: for all indexes
  \<open>i < j\<close> of the table, the probability at \<open>j\<close> is at most the probability at \<open>i\<close>.
\<close>

theorem Encode_ptable_descending:
  fixes input :: string
  assumes "i < j" and "j < length (Encode_ptable input)"
  shows "p (Encode_ptable input ! j) \<le> p (Encode_ptable input ! i)"
  using assms sorted_qsort [of "build_ptable (count_chars input) (length input)"]
  by (simp add: Encode_ptable_def sorted_wrt_iff_nth_less)

theorem Encode_ptable_descending_witness:
  "(0::nat) < 2 \<and> 2 < length (Encode_ptable ''aaaabbbc'')
   \<and> p (Encode_ptable ''aaaabbbc'' ! 2) \<le> p (Encode_ptable ''aaaabbbc'' ! 0)"
proof -
  have i: "(0::nat) < 2" by simp
  have "card (set ''aaaabbbc'') = 3" by code_simp
  then have j: "2 < length (Encode_ptable ''aaaabbbc'')" by (simp add: length_Encode_ptable)
  from Encode_ptable_descending [OF i j] i j show ?thesis by simp
qed

section \<open>The decoding loop\<close>

lemma c_str_Nil [simp]: "c_str [] = []"
  by (simp add: c_str_def)

lemma c_str_id: "CHR 0x00 \<notin> set s \<Longrightarrow> c_str s = s"
  by (auto simp: c_str_def)

lemma c_str_append_NUL: "CHR 0x00 \<in> set s \<Longrightarrow> c_str (s @ t) = c_str s"
  by (auto simp: c_str_def)

lemma c_str_snoc_NUL: "CHR 0x00 \<notin> set s \<Longrightarrow> c_str (s @ [CHR 0x00]) = s"
  by (induction s) (auto simp: c_str_def)

lemma match_codes_unmatched:
  "unmatched codes accum \<Longrightarrow> match_codes codes (accum, out) = (accum, out)"
  by (induction codes) (auto simp: unmatched_def)

lemma match_codes_cases:
  "match_codes codes (accum, out) = (accum, out) \<and> unmatched codes accum
   \<or> (\<exists>out'. match_codes codes (accum, out) = ([], out'))"
proof (induction codes arbitrary: accum out)
  case Nil
  show ?case by (simp add: unmatched_def)
next
  case (Cons e codes)
  obtain c code where e: "e = (c, code)" by (cases e)
  show ?case
  proof (cases "strcmp_is_0 code accum")
    case True
    from Cons.IH [of "[]" "out @ [c]"] show ?thesis
      using True e by auto
  next
    case False
    from Cons.IH [of accum out] show ?thesis
      using False e by (auto simp: unmatched_def)
  qed
qed

lemma c_strings_unmatched_Nil: "c_strings codes \<Longrightarrow> unmatched codes []"
  by (auto simp: c_strings_def unmatched_def strcmp_is_0_def c_str_id)

lemma match_codes_matched:
  assumes "c_strings codes" "distinct (map fst codes)" "\<not> unmatched codes accum"
  shows "\<exists>c. map_of codes c \<noteq> None \<and> strcmp_is_0 (map_at [] codes c) accum
            \<and> match_codes codes (accum, out) = ([], out @ [c])"
  using assms
proof (induction codes)
  case Nil
  then show ?case by (simp add: unmatched_def)
next
  case (Cons e codes)
  obtain c code where e: "e = (c, code)" by (cases e)
  have cs: "c_strings codes" using Cons.prems(1) by (simp add: c_strings_def)
  show ?case
  proof (cases "strcmp_is_0 code accum")
    case True
    have "match_codes codes ([], out @ [c]) = ([], out @ [c])"
      by (rule match_codes_unmatched) (rule c_strings_unmatched_Nil [OF cs])
    with True e show ?thesis
      by (intro exI [of _ c]) (simp add: map_at_def)
  next
    case False
    with Cons.prems(3) e have "\<not> unmatched codes accum"
      by (simp add: unmatched_def)
    with Cons.IH cs Cons.prems(2) obtain c' where c':
      "map_of codes c' \<noteq> None" "strcmp_is_0 (map_at [] codes c') accum"
      "match_codes codes (accum, out) = ([], out @ [c'])"
      by auto
    from c'(1) have "c' \<in> fst ` set codes"
      by (metis map_of_eq_None_iff)
    with Cons.prems(2) e have "c' \<noteq> c" by auto
    with c' False e show ?thesis
      by (intro exI [of _ c']) (simp add: map_at_def)
  qed
qed

lemma unmatched_c_str_cong:
  "c_str a = c_str b \<Longrightarrow> unmatched codes a = unmatched codes b"
  by (simp add: unmatched_def strcmp_is_0_def)

lemma unmatched_snoc_no_new:
  assumes cs: "c_strings codes" and inv: "accum \<noteq> [] \<longrightarrow> unmatched codes accum"
    and nul: "CHR 0x00 \<in> set (accum @ [b])"
  shows "unmatched codes (accum @ [b])"
proof (cases "CHR 0x00 \<in> set accum")
  case True
  then have "accum \<noteq> []" by auto
  with inv have "unmatched codes accum" by simp
  moreover have "c_str (accum @ [b]) = c_str accum"
    using True by (rule c_str_append_NUL)
  ultimately show ?thesis by (simp only: unmatched_c_str_cong [of "accum @ [b]" accum])
next
  case False
  with nul have b: "b = CHR 0x00" by simp
  have eq: "c_str (accum @ [b]) = c_str accum"
    unfolding b c_str_snoc_NUL [OF False] c_str_id [OF False] ..
  have "unmatched codes accum"
    using inv c_strings_unmatched_Nil [OF cs] by (cases "accum = []") simp_all
  with eq show ?thesis by (simp only: unmatched_c_str_cong [of "accum @ [b]" accum])
qed

lemma map_at_c_string:
  "c_strings codes \<Longrightarrow> map_of codes c \<noteq> None \<Longrightarrow> CHR 0x00 \<notin> set (map_at [] codes c)"
proof -
  assume cs: "c_strings codes" and "map_of codes c \<noteq> None"
  then obtain w where w: "map_of codes c = Some w" by auto
  then have "(c, w) \<in> set codes" by (rule map_of_SomeD)
  with cs have "CHR 0x00 \<notin> set w" by (auto simp: c_strings_def)
  with w show ?thesis by (simp add: map_at_def)
qed

lemma Decode_step_inv:
  assumes cs: "c_strings codes" and dk: "distinct (map fst codes)"
    and inv: "decode_inv codes bs st"
  shows "decode_inv codes (bs @ [b]) (Decode_step codes b st)"
proof -
  obtain accum out where st: "st = (accum, out)" by (cases st)
  from inv st have bs: "concat (map (map_at [] codes) out) @ accum = bs"
    and um: "accum \<noteq> [] \<longrightarrow> unmatched codes accum"
    by (simp_all add: decode_inv_def)
  show ?thesis
  proof (cases "unmatched codes (accum @ [b])")
    case True
    then have "Decode_step codes b st = (accum @ [b], out)"
      by (simp add: Decode_step_def st match_codes_unmatched)
    with True bs show ?thesis by (simp add: decode_inv_def)
  next
    case False
    with unmatched_snoc_no_new [OF cs um] have nonul: "CHR 0x00 \<notin> set (accum @ [b])"
      by blast
    from match_codes_matched [OF cs dk False, of out] obtain c where c:
      "map_of codes c \<noteq> None" "strcmp_is_0 (map_at [] codes c) (accum @ [b])"
      "match_codes codes (accum @ [b], out) = ([], out @ [c])"
      by blast
    from c(2) map_at_c_string [OF cs c(1)] nonul
    have "map_at [] codes c = accum @ [b]"
      by (simp add: strcmp_is_0_def c_str_id)
    with c(3) bs show ?thesis
      by (simp add: decode_inv_def Decode_step_def st)
  qed
qed

lemma fold_Decode_step_inv:
  assumes cs: "c_strings codes" and dk: "distinct (map fst codes)"
  shows "decode_inv codes bs st \<Longrightarrow>
         decode_inv codes (bs @ xs) (fold (Decode_step codes) xs st)"
proof (induction xs arbitrary: bs st)
  case Nil
  then show ?case by simp
next
  case (Cons b xs)
  from Decode_step_inv [OF cs dk Cons.prems]
  have "decode_inv codes (bs @ [b]) (Decode_step codes b st)" .
  from Cons.IH [OF this] show ?case by simp
qed

lemma Decode_step_emits:
  assumes cs: "c_strings codes" and dk: "distinct (map fst codes)"
  shows "Decode_step codes b (accum, out) = (accum @ [b], out)
         \<or> (\<exists>c. Decode_step codes b (accum, out) = ([], out @ [c]))"
proof (cases "unmatched codes (accum @ [b])")
  case True
  then show ?thesis by (simp add: Decode_step_def match_codes_unmatched)
next
  case False
  from match_codes_matched [OF cs dk False, of out] show ?thesis
    by (auto simp: Decode_step_def)
qed

lemma until_EOF_all: "CHR 0xFF \<notin> set bits \<Longrightarrow> until_EOF bits = bits"
  unfolding until_EOF_def by (rule takeWhile_eq_all_conv [THEN iffD2]) auto

text \<open>
  Claim C10 (decode soundness). For every code table whose codewords are all non-empty
  (a \<^verbatim>\<open>std::map\<close> of C strings: keys distinct, no NUL in a codeword) and every
  bitstream: the codewords of the symbols the decoder emits, in order, followed by the
  accumulator left at the end, are exactly the bits read, which are the whole bitstream
  when it holds no byte 255, as is the case of every sequence of the characters \<open>0\<close> and
  \<open>1\<close>; one more bit makes the decoder emit at most one symbol; and whenever a symbol is
  emitted the accumulator is empty when the next bit is read.
\<close>

theorem Decode_loop_sound:
  assumes "c_strings codes" and "distinct (map fst codes)"
  shows "concat (map (map_at [] codes) (snd (Decode_loop codes bits)))
           @ fst (Decode_loop codes bits) = until_EOF bits
         \<and> (CHR 0xFF \<notin> set bits \<longrightarrow>
              concat (map (map_at [] codes) (snd (Decode_loop codes bits)))
                @ fst (Decode_loop codes bits) = bits)
         \<and> (\<forall>b accum out.
               length (snd (Decode_step codes b (accum, out))) \<le> length out + 1
               \<and> (snd (Decode_step codes b (accum, out)) \<noteq> out
                    \<longrightarrow> fst (Decode_step codes b (accum, out)) = []))"
proof (intro conjI impI allI)
  have "decode_inv codes [] ([], [])" by (simp add: decode_inv_def)
  from fold_Decode_step_inv [OF assms this, of "until_EOF bits"]
  show read: "concat (map (map_at [] codes) (snd (Decode_loop codes bits)))
           @ fst (Decode_loop codes bits) = until_EOF bits"
    by (simp add: decode_inv_def Decode_loop_def)
  assume "CHR 0xFF \<notin> set bits"
  then have "until_EOF bits = bits" by (rule until_EOF_all)
  with read show "concat (map (map_at [] codes) (snd (Decode_loop codes bits)))
           @ fst (Decode_loop codes bits) = bits"
    by simp
next
  fix b accum out
  from Decode_step_emits [OF assms, of b accum out]
  show "length (snd (Decode_step codes b (accum, out))) \<le> length out + 1"
    by auto
  from Decode_step_emits [OF assms, of b accum out]
  show "snd (Decode_step codes b (accum, out)) \<noteq> out
          \<Longrightarrow> fst (Decode_step codes b (accum, out)) = []"
    by auto
qed

theorem Decode_loop_sound_witness:
  "c_strings [(CHR ''a'', ''0''), (CHR ''b'', ''10''), (CHR ''c'', ''11'')]
   \<and> distinct (map fst [(CHR ''a'', ''0''), (CHR ''b'', ''10''), (CHR ''c'', ''11'')])
   \<and> CHR 0xFF \<notin> set ''0101101''
   \<and> Decode_loop [(CHR ''a'', ''0''), (CHR ''b'', ''10''), (CHR ''c'', ''11'')] ''0101101''
       = (''1'', ''abca'')
   \<and> concat (map (map_at [] [(CHR ''a'', ''0''), (CHR ''b'', ''10''), (CHR ''c'', ''11'')])
         ''abca'') @ ''1'' = ''0101101''"
proof -
  let ?codes = "[(CHR ''a'', ''0''), (CHR ''b'', ''10''), (CHR ''c'', ''11'')]"
  have cs: "c_strings ?codes" by (simp add: c_strings_def)
  have dk: "distinct (map fst ?codes)" by simp
  have run: "Decode_loop ?codes ''0101101'' = (''1'', ''abca'')"
    by (simp add: Decode_loop_def until_EOF_def Decode_step_def strcmp_is_0_def c_str_def)
  have eof: "CHR 0xFF \<notin> set ''0101101''" by simp
  from Decode_loop_sound [OF cs dk, of "''0101101''"] cs dk run eof
  show ?thesis by simp
qed

lemma Decode_step_keeps_or_empties:
  "Decode_step codes b (accum, out) = (accum @ [b], out)
   \<or> fst (Decode_step codes b (accum, out)) = []"
  using match_codes_cases [of codes "accum @ [b]" out]
  by (auto simp: Decode_step_def)

lemma fold_Decode_step_split:
  "\<exists>used. bs = used @ fst (fold (Decode_step codes) bs ([], []))
     \<and> fold (Decode_step codes) used ([], [])
         = ([], snd (fold (Decode_step codes) bs ([], [])))"
proof (induction bs rule: rev_induct)
  case Nil
  show ?case by simp
next
  case (snoc b bs)
  obtain accum out where st: "fold (Decode_step codes) bs ([], []) = (accum, out)"
    by (cases "fold (Decode_step codes) bs ([], [])")
  from snoc st obtain used where used: "bs = used @ accum"
    "fold (Decode_step codes) used ([], []) = ([], out)"
    by auto
  from Decode_step_keeps_or_empties [of codes b accum out] show ?case
  proof
    assume "Decode_step codes b (accum, out) = (accum @ [b], out)"
    with st used show ?thesis
      by (intro exI [of _ used]) simp
  next
    assume e: "fst (Decode_step codes b (accum, out)) = []"
    then obtain out' where "Decode_step codes b (accum, out) = ([], out')"
      by (cases "Decode_step codes b (accum, out)") simp
    with st show ?thesis
      by (intro exI [of _ "bs @ [b]"]) simp
  qed
qed

lemma until_EOF_prefix: "until_EOF bits = used @ rest \<Longrightarrow> until_EOF used = used"
  unfolding until_EOF_def
  by (metis (mono_tags, lifting) UnCI set_append set_takeWhileD takeWhile_eq_all_conv)

text \<open>
  Claim C7, as the code has it. \<^verbatim>\<open>Decode\<close> has no error result: after the loop it
  closes the files and returns. For every artifact, the bits read are the bits \<open>used\<close>
  followed by the accumulator left at the end; the output is the output for \<open>used\<close>
  alone, which leaves the accumulator empty. So the bits left over, matched or not, are
  dropped without a word.
\<close>

theorem Decode_drops_leftover:
  "(let codes = load_codes (art_tsize art) (art_rows art);
        accum = fst (Decode_loop codes (art_bits art));
        used = take (length (until_EOF (art_bits art)) - length accum)
                 (until_EOF (art_bits art))
    in until_EOF (art_bits art) = used @ accum
       \<and> Decode_loop codes used = ([], Decode art))"
proof -
  define codes where "codes = load_codes (art_tsize art) (art_rows art)"
  define bs where "bs = until_EOF (art_bits art)"
  define accum where "accum = fst (Decode_loop codes (art_bits art))"
  from fold_Decode_step_split [of bs codes] obtain used where used:
    "bs = used @ fst (fold (Decode_step codes) bs ([], []))"
    "fold (Decode_step codes) used ([], []) = ([], snd (fold (Decode_step codes) bs ([], [])))"
    by blast
  have acc: "fst (fold (Decode_step codes) bs ([], [])) = accum"
    by (simp add: accum_def Decode_loop_def bs_def)
  from used(1) acc have split: "bs = used @ accum" by simp
  then have tk: "take (length bs - length accum) bs = used" by simp
  from split have "until_EOF used = used"
    unfolding bs_def by (rule until_EOF_prefix)
  with used(2) have "Decode_loop codes used = ([], Decode art)"
    by (simp add: Decode_loop_def Decode_def codes_def bs_def)
  with split tk show ?thesis
    by (simp add: Let_def codes_def [symmetric] accum_def [symmetric] bs_def [symmetric])
qed

text \<open>
  Claim C7 as stated fails: for the table \<open>a = 0, b = 10, c = 11\<close> and the bits \<open>01\<close>,
  the bits are exhausted with the accumulator \<open>1\<close>, which is not empty and matches no
  codeword, and \<^verbatim>\<open>Decode\<close> returns the output \<open>a\<close> as on any other input.
\<close>

theorem Decode_unmatched_bits_counterexample:
  "Decode_loop (load_codes 3 [(CHR ''a'', 1/2 :: rat, ''0''), (CHR ''b'', 3/8, ''10''),
                              (CHR ''c'', 1/8, ''11'')]) ''01''
     = (''1'', ''a'')
   \<and> unmatched (load_codes 3 [(CHR ''a'', 1/2 :: rat, ''0''), (CHR ''b'', 3/8, ''10''),
                              (CHR ''c'', 1/8, ''11'')]) ''1''
   \<and> Decode \<lparr>art_tsize = 3,
              art_rows = [(CHR ''a'', 1/2 :: rat, ''0''), (CHR ''b'', 3/8, ''10''),
                          (CHR ''c'', 1/8, ''11'')],
              art_bits = ''01''\<rparr> = ''a''"
  by (simp add: Decode_def Decode_loop_def until_EOF_def Decode_step_def strcmp_is_0_def c_str_def
      load_codes_def schar_def unmatched_def)

section \<open>Decoding a concatenation of codewords\<close>

lemma decode_codeword:
  assumes cs: "c_strings codes" and dk: "distinct (map fst codes)" and pf: "prefix_free codes"
    and cw: "(c, w) \<in> set codes"
  shows "w = u @ v \<Longrightarrow> v \<noteq> [] \<Longrightarrow>
         fold (Decode_step codes) v (u, out) = ([], out @ [c])"
proof (induction v arbitrary: u)
  case Nil
  then show ?case by simp
next
  case (Cons b v)
  from cs cw have wnul: "CHR 0x00 \<notin> set w" by (auto simp: c_strings_def)
  have same: "w' = u @ [b] \<and> prefix w' w" if e: "(c', w') \<in> set codes"
    and m: "strcmp_is_0 w' (u @ [b])" for c' w'
  proof -
    from cs e have "CHR 0x00 \<notin> set w'" by (auto simp: c_strings_def)
    moreover from wnul Cons.prems(1) have "CHR 0x00 \<notin> set (u @ [b])" by auto
    ultimately have "w' = u @ [b]" using m by (simp add: strcmp_is_0_def c_str_id)
    with Cons.prems(1) show ?thesis by simp
  qed
  have only_c: "c' = c" if e: "(c', w') \<in> set codes" and m: "strcmp_is_0 w' (u @ [b])" for c' w'
  proof (rule ccontr)
    assume "c' \<noteq> c"
    with pf e cw have "\<not> prefix w' w" by (auto simp: prefix_free_def)
    with same [OF e m] show False by simp
  qed
  show ?case
  proof (cases "v = []")
    case True
    with Cons.prems(1) have w: "w = u @ [b]" by simp
    with cw have "\<not> unmatched codes (u @ [b])"
      by (auto simp: unmatched_def strcmp_is_0_def)
    from match_codes_matched [OF cs dk this, of out] obtain c' where c':
      "map_of codes c' \<noteq> None" "strcmp_is_0 (map_at [] codes c') (u @ [b])"
      "match_codes codes (u @ [b], out) = ([], out @ [c'])"
      by blast
    from c'(1) obtain w' where "map_of codes c' = Some w'" by auto
    then have "(c', w') \<in> set codes" "map_at [] codes c' = w'"
      by (auto simp: map_at_def dest: map_of_SomeD)
    with only_c [of c' w'] c'(2) have "c' = c" by simp
    with c'(3) True show ?thesis by (simp add: Decode_step_def)
  next
    case False
    have "unmatched codes (u @ [b])"
      unfolding unmatched_def
    proof (intro ballI, clarify)
      fix c' w' assume e: "(c', w') \<in> set codes" and m: "strcmp_is_0 w' (u @ [b])"
      from only_c [OF e m] e have "(c, w') \<in> set codes" by simp
      from distinct_keys_unique [OF dk this cw] same [OF e m] have "w = u @ [b]" by simp
      with Cons.prems(1) False show False by simp
    qed
    then have "Decode_step codes b (u, out) = (u @ [b], out)"
      by (simp add: Decode_step_def match_codes_unmatched)
    moreover from Cons.prems(1) have "w = (u @ [b]) @ v" by simp
    note Cons.IH [OF this False]
    ultimately show ?thesis by simp
  qed
qed

lemma decode_concat:
  assumes cs: "c_strings codes" and dk: "distinct (map fst codes)" and pf: "prefix_free codes"
  shows "\<forall>c \<in> set input. (c, cw c) \<in> set codes \<Longrightarrow>
         fold (Decode_step codes) (concat (map cw input)) ([], out) = ([], out @ input)"
proof (induction input arbitrary: out)
  case Nil
  show ?case by simp
next
  case (Cons c input)
  from Cons.prems have e: "(c, cw c) \<in> set codes" by simp
  with cs have ne: "cw c \<noteq> []" by (auto simp: c_strings_def)
  have "cw c = [] @ cw c" by simp
  from decode_codeword [OF cs dk pf e this ne, of out]
  have "fold (Decode_step codes) (cw c) ([], out) = ([], out @ [c])" .
  moreover from Cons.prems have "\<forall>c \<in> set input. (c, cw c) \<in> set codes" by simp
  note Cons.IH [OF this, of "out @ [c]"]
  ultimately show ?case by simp
qed

lemma until_EOF_bits: "set bits \<subseteq> {CHR ''0'', CHR ''1''} \<Longrightarrow> until_EOF bits = bits"
  by (rule until_EOF_all) auto

section \<open>The artifact of \<^verbatim>\<open>Encode\<close>\<close>

lemma load_step_sorted:
  "key_sorted m \<Longrightarrow> key_sorted (fold (\<lambda>(c, pr, code) codes. map_put c code codes) rows m)"
  by (induction rows arbitrary: m) (auto simp: key_sorted_map_put)

lemma load_step_set:
  "set (fold (\<lambda>(c, pr, code) codes. map_put c code codes) rows m)
     \<subseteq> set m \<union> (\<lambda>(c, pr, code). (c, code)) ` set rows"
proof (induction rows arbitrary: m)
  case Nil
  show ?case by simp
next
  case (Cons r rows)
  obtain c pr code where r: "r = (c, pr, code)" by (cases r)
  from Cons.IH [of "map_put c code m"] set_map_put [of c code m]
  show ?case unfolding r by auto
qed

lemma load_step_map_of:
  "\<forall>(c, pr, code) \<in> set rows. code = cw c \<Longrightarrow>
   map_of (fold (\<lambda>(c, pr, code) codes. map_put c code codes) rows m) k
     = (if k \<in> fst ` set rows then Some (cw k) else map_of m k)"
proof (induction rows arbitrary: m)
  case Nil
  show ?case by simp
next
  case (Cons r rows)
  obtain c pr code where r: "r = (c, pr, code)" by (cases r)
  from Cons.prems r have code: "code = cw c" and rest: "\<forall>(c, pr, code) \<in> set rows. code = cw c"
    by auto
  from Cons.IH [OF rest, of "map_put c code m"] show ?case
    unfolding r by (auto simp: map_of_map_put code)
qed

lemma load_codes_all:
  "load_codes (int (length rows)) rows
     = fold (\<lambda>(c, pr, code) codes. map_put c code codes) rows []"
  by (simp add: load_codes_def)

text \<open>What an artifact that \<open>Encode\<close> returns is made of.\<close>

lemma Encode_Some:
  assumes enc: "Encode depth input = Some art"
  shows "\<exists>codes.
     art_tsize art = int (length (Encode_ptable input))
     \<and> art_rows art = map (\<lambda>e. (ch e, p e, map_at [] codes (ch e))) (Encode_ptable input)
     \<and> art_bits art = concat (map (map_at [] codes) input)
     \<and> EncShannon depth (Encode_ptable input) 0
           (int (length (Encode_ptable input)) - 1) [] = Some codes
     \<and> (\<forall>c \<in> set input. set (map_at [] codes c) \<subseteq> {CHR ''0'', CHR ''1''})
     \<and> (\<forall>c1 \<in> set input. \<forall>c2 \<in> set input. c1 \<noteq> c2 \<longrightarrow>
            \<not> prefix (map_at [] codes c1) (map_at [] codes c2))"
proof -
  let ?pt = "Encode_ptable input"
  let ?n = "int (length ?pt)"
  from enc obtain codes where run: "EncShannon depth ?pt 0 (?n - 1) [] = Some codes"
    and art: "art = \<lparr>art_tsize = ?n,
                 art_rows = map (\<lambda>e. (ch e, p e, map_at [] codes (ch e))) ?pt,
                 art_bits = concat (map (map_at [] codes) input)\<rparr>"
    by (auto simp: Encode_def Let_def split: option.splits)
  from EncShannon_effect [OF Encode_ptable_positive Encode_ptable_distinct run]
  obtain suf where suf: "range_codes ?pt 0 (?n - 1) [] codes suf" by auto
  have idx: "\<exists>i. 0 \<le> i \<and> i \<le> ?n - 1 \<and> c = ch (?pt ! nat i)" if "c \<in> set input" for c
  proof -
    from that have "c \<in> ch ` set ?pt" by (simp only: Encode_ptable_chars)
    then obtain e where "e \<in> set ?pt" "c = ch e" by auto
    then obtain k where "k < length ?pt" "?pt ! k = e" by (auto simp: in_set_conv_nth)
    with \<open>c = ch e\<close> show ?thesis by (intro exI [of _ "int k"]) simp
  qed
  have cw: "map_at [] codes (ch (?pt ! nat i)) = suf i" if "0 \<le> i" "i \<le> ?n - 1" for i
    using suf that by (simp add: range_codes_def map_at_def)
  have bits: "set (map_at [] codes c) \<subseteq> {CHR ''0'', CHR ''1''}" if "c \<in> set input" for c
  proof -
    from idx [OF that] obtain i where i: "0 \<le> i" "i \<le> ?n - 1" "c = ch (?pt ! nat i)" by blast
    with suf have "set (suf i) \<subseteq> {CHR ''0'', CHR ''1''}" by (simp add: range_codes_def)
    with cw [OF i(1,2)] i(3) show ?thesis by simp
  qed
  have pf: "\<not> prefix (map_at [] codes c1) (map_at [] codes c2)"
    if "c1 \<in> set input" "c2 \<in> set input" "c1 \<noteq> c2" for c1 c2
  proof -
    from idx [OF that(1)] obtain i where i: "0 \<le> i" "i \<le> ?n - 1" "c1 = ch (?pt ! nat i)" by blast
    from idx [OF that(2)] obtain j where j: "0 \<le> j" "j \<le> ?n - 1" "c2 = ch (?pt ! nat j)" by blast
    from i j that(3) have "i \<noteq> j" by auto
    with suf i j have "\<not> prefix (suf i) (suf j)" by (simp add: range_codes_def)
    with cw [OF i(1,2)] cw [OF j(1,2)] i(3) j(3) show ?thesis by simp
  qed
  from art run bits pf show ?thesis by (intro exI [of _ codes]) simp
qed

text \<open>
  The same, with the rows read as a table: the symbols of the rows are the symbols of the
  input, each with the codeword \<open>cw\<close> gives it; with two symbols or more no codeword is
  empty, and with one symbol its codeword is.
\<close>

lemma Encode_Some_rows:
  assumes enc: "Encode depth input = Some art"
  shows "\<exists>cw.
     art_tsize art = int (length (art_rows art))
     \<and> art_bits art = concat (map cw input)
     \<and> fst ` set (art_rows art) = set input
     \<and> (\<forall>(c, pr, w) \<in> set (art_rows art). w = cw c)
     \<and> (\<forall>c \<in> set input. set (cw c) \<subseteq> {CHR ''0'', CHR ''1''})
     \<and> (\<forall>c1 \<in> set input. \<forall>c2 \<in> set input. c1 \<noteq> c2 \<longrightarrow> \<not> prefix (cw c1) (cw c2))
     \<and> (2 \<le> card (set input) \<longrightarrow> (\<forall>c \<in> set input. cw c \<noteq> []))
     \<and> (card (set input) = 1 \<longrightarrow> (\<forall>c. cw c = []))"
proof -
  let ?pt = "Encode_ptable input"
  from Encode_Some [OF enc] obtain codes where
    tsize: "art_tsize art = int (length ?pt)"
    and rows: "art_rows art = map (\<lambda>e. (ch e, p e, map_at [] codes (ch e))) ?pt"
    and bits: "art_bits art = concat (map (map_at [] codes) input)"
    and run: "EncShannon depth ?pt 0 (int (length ?pt) - 1) [] = Some codes"
    and zo: "\<forall>c \<in> set input. set (map_at [] codes c) \<subseteq> {CHR ''0'', CHR ''1''}"
    and pf: "\<forall>c1 \<in> set input. \<forall>c2 \<in> set input. c1 \<noteq> c2 \<longrightarrow>
            \<not> prefix (map_at [] codes c1) (map_at [] codes c2)"
    by blast
  let ?cw = "map_at [] codes"
  have "fst ` set (art_rows art) = ch ` set ?pt"
    by (auto simp: rows image_iff)
  then have keys: "fst ` set (art_rows art) = set input"
    by (simp only: Encode_ptable_chars)
  have row: "\<forall>(c, pr, w) \<in> set (art_rows art). w = ?cw c"
    by (auto simp: rows)
  have many: "?cw c \<noteq> []" if two: "2 \<le> card (set input)" and c: "c \<in> set input" for c
  proof -
    have "\<not> set input \<subseteq> {c}"
    proof
      assume "set input \<subseteq> {c}"
      then have "card (set input) \<le> card {c}" by (intro card_mono) simp_all
      with two show False by simp
    qed
    then obtain c' where c': "c' \<in> set input" "c' \<noteq> c" by auto
    with c pf have "\<not> prefix (?cw c) (?cw c')" by auto
    then show ?thesis by auto
  qed
  have single: "?cw c = []" if one: "card (set input) = 1" for c
  proof -
    from one have "int (length ?pt) - 1 = 0" by (simp add: length_Encode_ptable)
    with run have "EncShannon depth ?pt 0 0 [] = Some codes" by simp
    then have "codes = []" by (cases depth) simp_all
    then show ?thesis by (simp add: map_at_def)
  qed
  from tsize rows have len: "art_tsize art = int (length (art_rows art))" by simp
  from many have many': "2 \<le> card (set input) \<longrightarrow> (\<forall>c \<in> set input. ?cw c \<noteq> [])"
    by blast
  from single have single': "card (set input) = 1 \<longrightarrow> (\<forall>c. ?cw c = [])"
    by blast
  show ?thesis
    by (rule exI [of _ ?cw]) (intro conjI len bits keys row zo pf many' single')
qed

text \<open>
  The lengths of the codewords, with no arithmetic: with two symbols or more the first call
  of the builder appends a bit to every codeword and the recursion only appends; with one
  symbol the builder returns at once.
\<close>

lemma Encode_Some_lengths:
  assumes enc: "Encode depth input = Some art"
  shows "fst ` set (art_rows art) = set input
     \<and> (2 \<le> card (set input) \<longrightarrow> (\<forall>(c, pr, w) \<in> set (art_rows art). 1 \<le> length w))
     \<and> (card (set input) = 1 \<longrightarrow> (\<forall>(c, pr, w) \<in> set (art_rows art). w = []))"
proof -
  let ?pt = "Encode_ptable input"
  let ?n = "int (length ?pt)"
  from enc obtain codes where run: "EncShannon depth ?pt 0 (?n - 1) [] = Some codes"
    and rows: "art_rows art = map (\<lambda>e. (ch e, p e, map_at [] codes (ch e))) ?pt"
    by (auto simp: Encode_def Let_def split: option.splits)
  have "fst ` set (art_rows art) = ch ` set ?pt"
    by (auto simp: rows image_iff)
  then have keys: "fst ` set (art_rows art) = set input"
    by (simp only: Encode_ptable_chars)
  have many: "1 \<le> length w"
    if two: "2 \<le> card (set input)" and r: "(c, pr, w) \<in> set (art_rows art)" for c pr w
  proof -
    from r rows obtain e where e: "e \<in> set ?pt" and w: "w = map_at [] codes (ch e)" by auto
    from e obtain k where k: "k < length ?pt" "?pt ! k = e" by (auto simp: in_set_conv_nth)
    from two have lt: "0 < ?n - 1" by (simp add: length_Encode_ptable)
    have "map_at [] codes (ch (?pt ! nat (int k))) \<noteq> []"
      using k(1) by (intro EncShannon_nonempty [OF Encode_ptable_distinct _ lt _ run]) simp_all
    with k(2) w have "w \<noteq> []" by simp
    then show ?thesis by (cases w) simp_all
  qed
  have single: "w = []"
    if one: "card (set input) = 1" and r: "(c, pr, w) \<in> set (art_rows art)" for c pr w
  proof -
    from one have "?n - 1 = 0" by (simp add: length_Encode_ptable)
    with run have "EncShannon depth ?pt 0 0 [] = Some codes" by simp
    then have "codes = []" by (cases depth) simp_all
    with r rows show ?thesis by (auto simp: map_at_def)
  qed
  from many have many': "2 \<le> card (set input) \<longrightarrow> (\<forall>(c, pr, w) \<in> set (art_rows art). 1 \<le> length w)"
    by blast
  from single have single': "card (set input) = 1 \<longrightarrow> (\<forall>(c, pr, w) \<in> set (art_rows art). w = [])"
    by blast
  show ?thesis by (intro conjI keys many' single')
qed

text \<open>
  \<^verbatim>\<open>Encode\<close> returns on every non-empty input whose table is balanced, within a depth of
  recursion of the number of distinct symbols. A table of one or two entries is balanced.
\<close>

lemma balanced_short: "hi - lo < 2 \<Longrightarrow> balanced ptable lo hi"
  by (auto simp: balanced_def)

lemma Encode_returns:
  assumes ne: "input \<noteq> []"
    and bal: "balanced (Encode_ptable input) 0 (int (length (Encode_ptable input)) - 1)"
    and d: "card (set input) \<le> depth"
  shows "\<exists>art. Encode depth input = Some art"
proof -
  let ?pt = "Encode_ptable input"
  from ne have "set input \<noteq> {}" by simp
  then have "0 < card (set input)" by (simp add: card_gt_0_iff)
  then have n: "0 < length ?pt" by (simp add: length_Encode_ptable)
  with d have "nat (int (length ?pt) - 1 - 0) < depth" by (simp add: length_Encode_ptable)
  moreover from n have "0 \<le> int (length ?pt) - 1" by simp
  ultimately obtain codes where "EncShannon depth ?pt 0 (int (length ?pt) - 1) [] = Some codes"
    using EncShannon_returns [OF bal, of depth "[]"] by auto
  then show ?thesis by (simp add: Encode_def Let_def)
qed

lemma Encode_returns_short:
  assumes "input \<noteq> []" "card (set input) \<le> 2" "2 \<le> depth"
  shows "\<exists>art. Encode depth input = Some art"
proof -
  from assms(2) have "int (length (Encode_ptable input)) - 1 - 0 < 2"
    by (simp add: length_Encode_ptable)
  then have "balanced (Encode_ptable input) 0 (int (length (Encode_ptable input)) - 1)"
    by (rule balanced_short)
  with assms show ?thesis by (intro Encode_returns) simp_all
qed

text \<open>
  When \<^verbatim>\<open>Encode\<close> returns at all, it returns within a depth of recursion of the number
  of distinct symbols: whether the program returns on an input is decided by running the
  model with that depth.
\<close>

lemma Encode_depth_bound:
  assumes "Encode depth input = Some art"
  shows "Encode (card (set input)) input = Some art"
proof -
  let ?pt = "Encode_ptable input"
  from assms obtain codes where run: "EncShannon depth ?pt 0 (int (length ?pt) - 1) [] = Some codes"
    by (auto simp: Encode_def Let_def split: option.splits)
  from run have "0 \<le> int (length ?pt) - 1" by (rule EncShannon_Some_range)
  then have "Suc (nat (int (length ?pt) - 1 - 0)) = length ?pt"
    by arith
  then have "Suc (nat (int (length ?pt) - 1 - 0)) = card (set input)"
    by (simp only: length_Encode_ptable)
  moreover have "EncShannon (Suc (nat (int (length ?pt) - 1 - 0))) ?pt 0 (int (length ?pt) - 1) []
      = Some codes"
    by (rule EncShannon_depth_bound [OF run]) simp
  ultimately have "EncShannon (card (set input)) ?pt 0 (int (length ?pt) - 1) [] = Some codes"
    by (simp only:)
  with assms run show ?thesis by (simp add: Encode_def Let_def)
qed

section \<open>Runs of the builder on sample inputs\<close>

text \<open>
  The tables of some inputs and the first part of the calls of \<^verbatim>\<open>EncShannon\<close> on them,
  by evaluation of the model.

  For \<open>aaaabc\<close> the probabilities are the \<^verbatim>\<open>float\<close> values nearest to \<open>2/3\<close>, \<open>1/6\<close>
  and \<open>1/6\<close>; their sum is \<open>1\<close> and \<^verbatim>\<open>phalf\<close> is \<open>1/2\<close>. The first running sum
  already exceeds \<^verbatim>\<open>phalf\<close>: every element gets the bit \<open>1\<close> and \<open>isp = 0 = li\<close>.
\<close>

lemma ptable_aaaabc:
  "Encode_ptable ''aaaabc'' =
     [\<lparr>ch = CHR ''a'', p = Float (11184811 / 16777216)\<rparr>,
      \<lparr>ch = CHR ''b'', p = Float (11184811 / 67108864)\<rparr>,
      \<lparr>ch = CHR ''c'', p = Float (11184811 / 67108864)\<rparr>]"
  by code_simp

lemma split_aaaabc:
  "EncShannon_split (Encode_ptable ''aaaabc'') 0 2 []
     = (0, [(CHR ''a'', ''1''), (CHR ''b'', ''1''), (CHR ''c'', ''1'')])"
  unfolding ptable_aaaabc by code_simp

text \<open>
  For \<open>aaaaaabbbbbc\<close> the probabilities are \<open>1/2\<close> and the \<^verbatim>\<open>float\<close> values nearest to
  \<open>5/12\<close> and \<open>1/12\<close>. Their sum in \<^verbatim>\<open>float\<close> arithmetic is \<open>1 - 2^-24\<close>, so
  \<^verbatim>\<open>phalf\<close> is below \<open>1/2\<close> and the first running sum, \<open>1/2\<close>, exceeds it. (In exact
  arithmetic the sum is \<open>1\<close> and the first running sum does not exceed its half.)
\<close>

lemma ptable_aaaaaabbbbbc:
  "Encode_ptable ''aaaaaabbbbbc'' =
     [\<lparr>ch = CHR ''a'', p = Float (1 / 2)\<rparr>,
      \<lparr>ch = CHR ''b'', p = Float (13981013 / 33554432)\<rparr>,
      \<lparr>ch = CHR ''c'', p = Float (11184811 / 134217728)\<rparr>]"
  by code_simp

lemma sums_aaaaaabbbbbc:
  "sum_probs (Encode_ptable ''aaaaaabbbbbc'') 0 0 = Float (1 / 2)"
  "sum_probs (Encode_ptable ''aaaaaabbbbbc'') 0 2 = Float (16777215 / 16777216)"
  "sum_probs (Encode_ptable ''aaaaaabbbbbc'') 0 2 * half_f = Float (16777215 / 33554432)"
  unfolding ptable_aaaaaabbbbbc by code_simp+

text \<open>
  For \<open>aaaabbbc\<close> the probabilities \<open>1/2\<close>, \<open>3/8\<close> and \<open>1/8\<close> and their sums are
  \<^verbatim>\<open>float\<close> values: nothing is rounded.
\<close>

lemma ptable_aaaabbbc:
  "Encode_ptable ''aaaabbbc'' =
     [\<lparr>ch = CHR ''a'', p = Float (1 / 2)\<rparr>, \<lparr>ch = CHR ''b'', p = Float (3 / 8)\<rparr>,
      \<lparr>ch = CHR ''c'', p = Float (1 / 8)\<rparr>]"
  by code_simp

lemma split_aaaabbbc:
  "EncShannon_split (Encode_ptable ''aaaabbbc'') 0 2 []
     = (1, [(CHR ''a'', ''0''), (CHR ''b'', ''1''), (CHR ''c'', ''1'')])"
  unfolding ptable_aaaabbbc by code_simp

lemma balanced_aaaabbbc: "balanced (Encode_ptable ''aaaabbbc'') 0 2"
  unfolding ptable_aaaabbbc by code_simp

lemma EncShannon_single: "EncShannon (Suc d) ptable li li codes = Some codes"
  by simp

lemma EncShannon_aaaabbbc:
  "EncShannon (Suc (Suc d)) (Encode_ptable ''aaaabbbc'') 0 2 []
     = Some [(CHR ''a'', ''0''), (CHR ''b'', ''10''), (CHR ''c'', ''11'')]"
proof -
  have two: "EncShannon (Suc d) (Encode_ptable ''aaaabbbc'') 1 2
       [(CHR ''a'', ''0''), (CHR ''b'', ''1''), (CHR ''c'', ''1'')]
     = Some [(CHR ''a'', ''0''), (CHR ''b'', ''10''), (CHR ''c'', ''11'')]"
    by (simp add: ptable_aaaabbbc codes_append_def map_at_def schar_def)
  show ?thesis
    by (subst EncShannon_recurses) (simp_all add: split_aaaabbbc EncShannon_single two del: EncShannon.simps)
qed

lemma Encode_aaaabbbc:
  "Encode 3 ''aaaabbbc'' =
     Some \<lparr>art_tsize = 3,
           art_rows = [(CHR ''a'', Float (1 / 2), ''0''), (CHR ''b'', Float (3 / 8), ''10''),
                       (CHR ''c'', Float (1 / 8), ''11'')],
           art_bits = ''000010101011''\<rparr>"
proof -
  have d: "(3::nat) = Suc (Suc (Suc 0))" by simp
  have run: "EncShannon 3 (Encode_ptable ''aaaabbbc'') 0 2 []
     = Some [(CHR ''a'', ''0''), (CHR ''b'', ''10''), (CHR ''c'', ''11'')]"
    unfolding d by (rule EncShannon_aaaabbbc)
  have n: "int (length (Encode_ptable ''aaaabbbc'')) - 1 = 2"
    by (simp add: ptable_aaaabbbc)
  show ?thesis
    unfolding Encode_def Let_def n run by (simp add: ptable_aaaabbbc map_at_def)
qed

text \<open>
  For \<open>aaabbbcccdef\<close> the probabilities are \<open>1/4\<close>, three times, and the \<^verbatim>\<open>float\<close>
  value nearest to \<open>1/12\<close>, three times. Their sum in \<^verbatim>\<open>float\<close> arithmetic is
  \<open>1 - 2^-24\<close>, so the second running sum, \<open>1/2\<close>, exceeds \<^verbatim>\<open>phalf\<close>: the first call
  splits at index 1. (In exact arithmetic it would split at index 2.) The table is not
  balanced, in the window from \<open>c\<close> to \<open>e\<close>, on which \<^verbatim>\<open>EncShannon\<close> is not called.
\<close>

lemma ptable_aaabbbcccdef:
  "Encode_ptable ''aaabbbcccdef'' =
     [\<lparr>ch = CHR ''a'', p = Float (1 / 4)\<rparr>, \<lparr>ch = CHR ''b'', p = Float (1 / 4)\<rparr>,
      \<lparr>ch = CHR ''c'', p = Float (1 / 4)\<rparr>,
      \<lparr>ch = CHR ''d'', p = Float (11184811 / 134217728)\<rparr>,
      \<lparr>ch = CHR ''e'', p = Float (11184811 / 134217728)\<rparr>,
      \<lparr>ch = CHR ''f'', p = Float (11184811 / 134217728)\<rparr>]"
  by code_simp

lemma split_aaabbbcccdef_0:
  "EncShannon_split (Encode_ptable ''aaabbbcccdef'') 0 5 []
     = (1, [(CHR ''a'', ''0''), (CHR ''b'', ''1''), (CHR ''c'', ''1''),
            (CHR ''d'', ''1''), (CHR ''e'', ''1''), (CHR ''f'', ''1'')])"
  unfolding ptable_aaabbbcccdef by code_simp

lemma split_aaabbbcccdef_1:
  "EncShannon_split (Encode_ptable ''aaabbbcccdef'') 1 5
       [(CHR ''a'', ''0''), (CHR ''b'', ''1''), (CHR ''c'', ''1''),
        (CHR ''d'', ''1''), (CHR ''e'', ''1''), (CHR ''f'', ''1'')]
     = (2, [(CHR ''a'', ''0''), (CHR ''b'', ''10''), (CHR ''c'', ''11''),
            (CHR ''d'', ''11''), (CHR ''e'', ''11''), (CHR ''f'', ''11'')])"
  unfolding ptable_aaabbbcccdef by code_simp

lemma split_aaabbbcccdef_2:
  "EncShannon_split (Encode_ptable ''aaabbbcccdef'') 2 5
       [(CHR ''a'', ''0''), (CHR ''b'', ''10''), (CHR ''c'', ''11''),
        (CHR ''d'', ''11''), (CHR ''e'', ''11''), (CHR ''f'', ''11'')]
     = (3, [(CHR ''a'', ''0''), (CHR ''b'', ''10''), (CHR ''c'', ''110''),
            (CHR ''d'', ''111''), (CHR ''e'', ''111''), (CHR ''f'', ''111'')])"
  unfolding ptable_aaabbbcccdef by code_simp

lemma split_aaabbbcccdef_3:
  "EncShannon_split (Encode_ptable ''aaabbbcccdef'') 3 5
       [(CHR ''a'', ''0''), (CHR ''b'', ''10''), (CHR ''c'', ''110''),
        (CHR ''d'', ''111''), (CHR ''e'', ''111''), (CHR ''f'', ''111'')]
     = (4, [(CHR ''a'', ''0''), (CHR ''b'', ''10''), (CHR ''c'', ''110''),
            (CHR ''d'', ''1110''), (CHR ''e'', ''1111''), (CHR ''f'', ''1111'')])"
  unfolding ptable_aaabbbcccdef by code_simp

lemma EncShannon_aaabbbcccdef:
  "EncShannon (Suc (Suc (Suc (Suc (Suc d))))) (Encode_ptable ''aaabbbcccdef'') 0 5 []
     = Some [(CHR ''a'', ''0''), (CHR ''b'', ''10''), (CHR ''c'', ''110''),
             (CHR ''d'', ''1110''), (CHR ''e'', ''11110''), (CHR ''f'', ''11111'')]"
proof -
  let ?pt = "Encode_ptable ''aaabbbcccdef''"
  have two: "EncShannon (Suc d) ?pt 4 5
       [(CHR ''a'', ''0''), (CHR ''b'', ''10''), (CHR ''c'', ''110''),
        (CHR ''d'', ''1110''), (CHR ''e'', ''1111''), (CHR ''f'', ''1111'')]
     = Some [(CHR ''a'', ''0''), (CHR ''b'', ''10''), (CHR ''c'', ''110''),
             (CHR ''d'', ''1110''), (CHR ''e'', ''11110''), (CHR ''f'', ''11111'')]"
    by (simp add: ptable_aaabbbcccdef codes_append_def map_at_def schar_def)
  have l3: "EncShannon (Suc (Suc d)) ?pt 3 5
       [(CHR ''a'', ''0''), (CHR ''b'', ''10''), (CHR ''c'', ''110''),
        (CHR ''d'', ''111''), (CHR ''e'', ''111''), (CHR ''f'', ''111'')]
     = Some [(CHR ''a'', ''0''), (CHR ''b'', ''10''), (CHR ''c'', ''110''),
             (CHR ''d'', ''1110''), (CHR ''e'', ''11110''), (CHR ''f'', ''11111'')]"
    by (subst EncShannon_recurses)
      (simp_all add: split_aaabbbcccdef_3 EncShannon_single two del: EncShannon.simps)
  have l2: "EncShannon (Suc (Suc (Suc d))) ?pt 2 5
       [(CHR ''a'', ''0''), (CHR ''b'', ''10''), (CHR ''c'', ''11''),
        (CHR ''d'', ''11''), (CHR ''e'', ''11''), (CHR ''f'', ''11'')]
     = Some [(CHR ''a'', ''0''), (CHR ''b'', ''10''), (CHR ''c'', ''110''),
             (CHR ''d'', ''1110''), (CHR ''e'', ''11110''), (CHR ''f'', ''11111'')]"
    by (subst EncShannon_recurses)
      (simp_all add: split_aaabbbcccdef_2 EncShannon_single l3 del: EncShannon.simps)
  have l1: "EncShannon (Suc (Suc (Suc (Suc d)))) ?pt 1 5
       [(CHR ''a'', ''0''), (CHR ''b'', ''1''), (CHR ''c'', ''1''),
        (CHR ''d'', ''1''), (CHR ''e'', ''1''), (CHR ''f'', ''1'')]
     = Some [(CHR ''a'', ''0''), (CHR ''b'', ''10''), (CHR ''c'', ''110''),
             (CHR ''d'', ''1110''), (CHR ''e'', ''11110''), (CHR ''f'', ''11111'')]"
    by (subst EncShannon_recurses)
      (simp_all add: split_aaabbbcccdef_1 EncShannon_single l2 del: EncShannon.simps)
  show ?thesis
    by (subst EncShannon_recurses)
      (simp_all add: split_aaabbbcccdef_0 EncShannon_single l1 del: EncShannon.simps)
qed

lemma Encode_aaabbbcccdef:
  "Encode 6 ''aaabbbcccdef'' =
     Some \<lparr>art_tsize = 6,
           art_rows = [(CHR ''a'', Float (1 / 4), ''0''), (CHR ''b'', Float (1 / 4), ''10''),
                       (CHR ''c'', Float (1 / 4), ''110''),
                       (CHR ''d'', Float (11184811 / 134217728), ''1110''),
                       (CHR ''e'', Float (11184811 / 134217728), ''11110''),
                       (CHR ''f'', Float (11184811 / 134217728), ''11111'')],
           art_bits = ''00010101011011011011101111011111''\<rparr>"
proof -
  have d: "(6::nat) = Suc (Suc (Suc (Suc (Suc (Suc 0)))))" by simp
  have run: "EncShannon 6 (Encode_ptable ''aaabbbcccdef'') 0 5 []
     = Some [(CHR ''a'', ''0''), (CHR ''b'', ''10''), (CHR ''c'', ''110''),
             (CHR ''d'', ''1110''), (CHR ''e'', ''11110''), (CHR ''f'', ''11111'')]"
    unfolding d by (rule EncShannon_aaabbbcccdef)
  have n: "int (length (Encode_ptable ''aaabbbcccdef'')) - 1 = 5"
    by (simp add: ptable_aaabbbcccdef)
  show ?thesis
    unfolding Encode_def Let_def n run by (simp add: ptable_aaabbbcccdef map_at_def)
qed

lemma not_balanced_aaabbbcccdef: "\<not> balanced (Encode_ptable ''aaabbbcccdef'') 0 5"
proof -
  have "\<not> sum_probs (Encode_ptable ''aaabbbcccdef'') 2 2
          \<le> sum_probs (Encode_ptable ''aaabbbcccdef'') 2 4 * half_f"
    unfolding ptable_aaabbbcccdef by code_simp
  moreover have "(2::int) \<in> set [0..5]" "(4::int) \<in> set [2 + 2..5]" by simp_all
  ultimately show ?thesis unfolding balanced_def by blast
qed

text \<open>For \<open>zzzz\<close> the table has one entry and the builder returns at once.\<close>

lemma Encode_zzzz:
  "Encode 8 ''zzzz'' = Some \<lparr>art_tsize = 1, art_rows = [(CHR ''z'', Float 1, [])], art_bits = []\<rparr>"
  by code_simp

section \<open>The builder's step on sample inputs\<close>

text \<open>
  Claim C8 on two calls: the first call on the table of \<open>aaaabc\<close>, which never returns and
  has appended \<open>1\<close> to every codeword when it recurses, and the first call on the table of
  \<open>aaaabbbc\<close>.
\<close>

theorem EncShannon_one_more_bit_witness:
  "distinct (map ch (Encode_ptable ''aaaabc''))
   \<and> (0::int) \<le> 0 \<and> (0::int) \<le> 2 \<and> 2 < int (length (Encode_ptable ''aaaabc''))
   \<and> (2::int) \<le> 2 - 0
   \<and> EncShannon_split (Encode_ptable ''aaaabc'') 0 2 []
        = (0, [(CHR ''a'', ''1''), (CHR ''b'', ''1''), (CHR ''c'', ''1'')])
   \<and> one_more_bit (Encode_ptable ''aaaabc'') 0 2 []
        [(CHR ''a'', ''1''), (CHR ''b'', ''1''), (CHR ''c'', ''1'')]
   \<and> distinct (map ch (Encode_ptable ''aaaabbbc''))
   \<and> 2 < int (length (Encode_ptable ''aaaabbbc''))
   \<and> EncShannon_split (Encode_ptable ''aaaabbbc'') 0 2 []
        = (1, [(CHR ''a'', ''0''), (CHR ''b'', ''1''), (CHR ''c'', ''1'')])
   \<and> one_more_bit (Encode_ptable ''aaaabbbc'') 0 2 []
        [(CHR ''a'', ''0''), (CHR ''b'', ''1''), (CHR ''c'', ''1'')]"
proof -
  have z: "(0::int) \<le> 0" and le: "(0::int) \<le> 2" and three: "(2::int) \<le> 2 - 0" by simp_all
  have d1: "distinct (map ch (Encode_ptable ''aaaabc''))" by (rule Encode_ptable_distinct)
  have n1: "2 < int (length (Encode_ptable ''aaaabc''))" by (simp add: ptable_aaaabc)
  from EncShannon_one_more_bit [OF d1 z le n1, of 0 "[]"] three
  have o1: "one_more_bit (Encode_ptable ''aaaabc'') 0 2 []
        [(CHR ''a'', ''1''), (CHR ''b'', ''1''), (CHR ''c'', ''1'')]"
    by (simp add: split_aaaabc del: EncShannon.simps)
  have d2: "distinct (map ch (Encode_ptable ''aaaabbbc''))" by (rule Encode_ptable_distinct)
  have n2: "2 < int (length (Encode_ptable ''aaaabbbc''))" by (simp add: ptable_aaaabbbc)
  from EncShannon_one_more_bit [OF d2 z le n2, of 0 "[]"] three
  have o2: "one_more_bit (Encode_ptable ''aaaabbbc'') 0 2 []
        [(CHR ''a'', ''0''), (CHR ''b'', ''1''), (CHR ''c'', ''1'')]"
    by (simp add: split_aaaabbbc del: EncShannon.simps)
  show ?thesis
    by (intro conjI z le three d1 n1 split_aaaabc o1 d2 n2 split_aaaabbbc o2)
qed

text \<open>
  Claim C8 as stated fails on the single-element base case. In the run on the table of
  \<open>aaaabbbc\<close> the first level gives \<open>a\<close>, \<open>b\<close>, \<open>c\<close> the bits \<open>0\<close>, \<open>1\<close>, \<open>1\<close> and calls
  \<^verbatim>\<open>EncShannon(0, 0)\<close>: that call returns the table it was given, and the codeword of
  its one element \<open>a\<close>, \<open>0\<close> before the call, is \<open>0\<close> after it, not one bit longer.
\<close>

theorem EncShannon_single_element_counterexample:
  "ch (Encode_ptable ''aaaabbbc'' ! nat 0) = CHR ''a''
   \<and> map_at [] [(CHR ''a'', ''0''), (CHR ''b'', ''1''), (CHR ''c'', ''1'')] (CHR ''a'') = ''0''
   \<and> EncShannon 1 (Encode_ptable ''aaaabbbc'') 0 0
        [(CHR ''a'', ''0''), (CHR ''b'', ''1''), (CHR ''c'', ''1'')]
      = Some [(CHR ''a'', ''0''), (CHR ''b'', ''1''), (CHR ''c'', ''1'')]"
  by (simp add: ptable_aaaabbbc map_at_def)

text \<open>
  Claim C3 on the second call of the run on \<open>aaabbbcccdef\<close>, on the range \<open>[1, 5]\<close>, with
  the codewords the first call has left.
\<close>

theorem EncShannon_follows_spec_witness:
  "distinct (map ch (Encode_ptable ''aaabbbcccdef''))
   \<and> (0::int) \<le> 1 \<and> 5 < int (length (Encode_ptable ''aaabbbcccdef'')) \<and> (2::int) \<le> 5 - 1
   \<and> EncShannon_split (Encode_ptable ''aaabbbcccdef'') 1 5
         [(CHR ''a'', ''0''), (CHR ''b'', ''1''), (CHR ''c'', ''1''),
          (CHR ''d'', ''1''), (CHR ''e'', ''1''), (CHR ''f'', ''1'')]
       = (2, [(CHR ''a'', ''0''), (CHR ''b'', ''10''), (CHR ''c'', ''11''),
              (CHR ''d'', ''11''), (CHR ''e'', ''11''), (CHR ''f'', ''11'')])
   \<and> spec_split (Encode_ptable ''aaabbbcccdef'') 1 5 = 2
   \<and> spec_bit (Encode_ptable ''aaabbbcccdef'') 1 5 1 = CHR ''0''
   \<and> spec_bit (Encode_ptable ''aaabbbcccdef'') 1 5 2 = CHR ''1''
   \<and> spec_bit (Encode_ptable ''aaabbbcccdef'') 1 5 5 = CHR ''1''"
proof -
  let ?pt = "Encode_ptable ''aaabbbcccdef''"
  let ?cs = "[(CHR ''a'', ''0''), (CHR ''b'', ''1''), (CHR ''c'', ''1''),
              (CHR ''d'', ''1''), (CHR ''e'', ''1''), (CHR ''f'', ''1'')]"
  have d: "distinct (map ch ?pt)" by (rule Encode_ptable_distinct)
  have lo: "(0::int) \<le> 1" and three: "(2::int) \<le> 5 - 1" by simp_all
  have hi: "5 < int (length ?pt)" by (simp add: ptable_aaabbbcccdef)
  from EncShannon_follows_spec [OF d lo hi, of ?cs 0] three
  have sp: "spec_split ?pt 1 5 = 2"
    and bits: "\<forall>i \<in> set [1..5].
       map_at [] [(CHR ''a'', ''0''), (CHR ''b'', ''10''), (CHR ''c'', ''11''),
                  (CHR ''d'', ''11''), (CHR ''e'', ''11''), (CHR ''f'', ''11'')] (ch (?pt ! nat i))
         = map_at [] ?cs (ch (?pt ! nat i)) @ [spec_bit ?pt 1 5 i]"
    by (simp_all add: split_aaabbbcccdef_1 del: EncShannon.simps)
  from bspec [OF bits, of 1] have b1: "spec_bit ?pt 1 5 1 = CHR ''0''"
    by (simp add: ptable_aaabbbcccdef map_at_def)
  from bspec [OF bits, of 2] have b2: "spec_bit ?pt 1 5 2 = CHR ''1''"
    by (simp add: ptable_aaabbbcccdef map_at_def)
  from bspec [OF bits, of 5] have b5: "spec_bit ?pt 1 5 5 = CHR ''1''"
    by (simp add: ptable_aaabbbcccdef map_at_def)
  show ?thesis
    by (intro conjI d lo hi three split_aaabbbcccdef_1 sp b1 b2 b5)
qed

section \<open>Encoding, and decoding what was encoded\<close>

text \<open>
  Claim C6, at the failing input. For the empty input the table is empty, \<open>tsize = 0\<close>,
  and \<^verbatim>\<open>Encode\<close> calls \<^verbatim>\<open>EncShannon(0, -1)\<close>, which does not return whatever the
  depth of stack: no error is reported, and the output stage is never reached.
\<close>

theorem Encode_empty_input: "Encode depth [] = None"
  by (simp add: Encode_def Encode_ptable_def count_chars_def build_ptable_def
      EncShannon_empty_range)

text \<open>A call on three elements or more whose split point is its left end never returns.\<close>

lemma EncShannon_split_left_end:
  assumes "2 \<le> ri - li" "fst (EncShannon_split ptable li ri codes) = li"
  shows "EncShannon depth ptable li ri codes = None"
proof (cases depth)
  case 0
  then show ?thesis by simp
next
  case (Suc d)
  obtain codes1 where sp: "EncShannon_split ptable li ri codes = (li, codes1)"
    using assms(2) by (cases "EncShannon_split ptable li ri codes") simp
  from assms(1) have "li \<noteq> ri" "ri - li \<noteq> 1" by simp_all
  from EncShannon_recurses [OF this, of d ptable codes] sp show ?thesis
    by (simp add: Suc EncShannon_empty_range del: EncShannon.simps)
qed

text \<open>
  Claim C5, at a failing input. For the input \<open>aaaabc\<close> the table is \<open>a\<close>, \<open>b\<close>, \<open>c\<close>
  with the \<^verbatim>\<open>float\<close> values nearest to \<open>2/3\<close>, \<open>1/6\<close> and \<open>1/6\<close>; on the range
  \<open>[0, 2]\<close> the first running sum already exceeds \<^verbatim>\<open>phalf\<close>, which is \<open>1/2\<close>, so
  \<open>isp = 0 = li\<close> and the first recursive call is on the empty range \<open>[0, -1]\<close>, which
  never returns: \<^verbatim>\<open>Encode\<close> returns for no depth of stack.
\<close>

theorem Encode_aaaabc_never_returns:
  "Encode depth ''aaaabc'' = None"
proof -
  have "EncShannon depth (Encode_ptable ''aaaabc'') 0 2 [] = None"
    by (rule EncShannon_split_left_end) (simp_all add: split_aaaabc)
  moreover have "int (length (Encode_ptable ''aaaabc'')) - 1 = 2"
    by (simp add: ptable_aaaabc)
  ultimately show ?thesis
    by (simp add: Encode_def Let_def del: EncShannon.simps)
qed

text \<open>
  Prefix-freedom where the builder returns. When \<^verbatim>\<open>Encode\<close> returns, the code table the
  builder has produced, as the rows of the artifact give it, is prefix-free: the codeword
  of a symbol is never a prefix of the codeword of another symbol.
\<close>

lemma Encode_Some_prefix_free:
  assumes enc: "Encode depth input = Some art"
    and r1: "(c1, p1, w1) \<in> set (art_rows art)" and r2: "(c2, p2, w2) \<in> set (art_rows art)"
    and neq: "c1 \<noteq> c2"
  shows "\<not> prefix w1 w2"
proof -
  from Encode_Some_rows [OF enc] obtain cw where
    keys: "fst ` set (art_rows art) = set input"
    and row: "\<forall>(c, pr, w) \<in> set (art_rows art). w = cw c"
    and pf: "\<forall>c1 \<in> set input. \<forall>c2 \<in> set input. c1 \<noteq> c2 \<longrightarrow> \<not> prefix (cw c1) (cw c2)"
    by blast
  from r1 r2 keys have "c1 \<in> set input" "c2 \<in> set input" by force+
  with pf neq have "\<not> prefix (cw c1) (cw c2)" by simp
  moreover from row r1 r2 have "w1 = cw c1" "w2 = cw c2" by auto
  ultimately show ?thesis by simp
qed

text \<open>
  Claim C2, at a failing input. The input \<open>aaaaaabbbbbc\<close> has three distinct symbols, and
  the builder produces no code table for it, prefix-free or not: the first running sum,
  \<open>1/2\<close>, exceeds \<^verbatim>\<open>phalf\<close>, which the rounding of the sum has left below \<open>1/2\<close>, so
  \<open>isp = 0 = li\<close> and the call never returns, as for \<open>aaaabc\<close>. Where the builder does
  return its table is prefix-free (\<open>Encode_Some_prefix_free\<close>), and it returns on every
  balanced table (\<open>Encode_returns\<close>).
\<close>

theorem Encode_aaaaaabbbbbc_no_table:
  "card (set ''aaaaaabbbbbc'') = 3
   \<and> EncShannon depth (Encode_ptable ''aaaaaabbbbbc'') 0 2 [] = None
   \<and> Encode depth ''aaaaaabbbbbc'' = None"
proof -
  have c: "card (set ''aaaaaabbbbbc'') = 3" by code_simp
  have over: "\<not> sum_probs (Encode_ptable ''aaaaaabbbbbc'') 0 0
                \<le> sum_probs (Encode_ptable ''aaaaaabbbbbc'') 0 2 * half_f"
    by (simp add: sums_aaaaaabbbbbc(1,3) less_eq_float_def)
  have run: "EncShannon depth (Encode_ptable ''aaaaaabbbbbc'') 0 2 [] = None"
    by (rule EncShannon_first_over_half [OF _ _ over]) simp_all
  moreover have "int (length (Encode_ptable ''aaaaaabbbbbc'')) - 1 = 2"
    by (simp add: length_Encode_ptable c)
  ultimately have "Encode depth ''aaaaaabbbbbc'' = None"
    by (simp add: Encode_def Let_def del: EncShannon.simps)
  with c run show ?thesis by simp
qed

text \<open>
  Claim C4, as the code has it. When \<^verbatim>\<open>Encode\<close> returns, the rows of the artifact hold
  exactly the symbols observed in the input; when the input has two distinct symbols or
  more, every codeword has length 1 at least; when it has exactly one symbol, the codeword
  of that symbol is the empty string (\<^verbatim>\<open>EncShannon\<close> returns at once on a range of one
  element). And \<^verbatim>\<open>Encode\<close> does return on every non-empty input whose table is
  balanced, given a depth of recursion of the number of distinct symbols.
\<close>

theorem Encode_codeword_lengths:
  "(Encode depth input = Some art \<longrightarrow>
      fst ` set (art_rows art) = set input
      \<and> (2 \<le> card (set input) \<longrightarrow> (\<forall>(c, pr, w) \<in> set (art_rows art). 1 \<le> length w))
      \<and> (card (set input) = 1 \<longrightarrow> (\<forall>(c, pr, w) \<in> set (art_rows art). w = [])))
   \<and> (input \<noteq> []
        \<and> balanced (Encode_ptable input) 0 (int (length (Encode_ptable input)) - 1)
        \<and> card (set input) \<le> depth \<longrightarrow>
      (\<exists>art'. Encode depth input = Some art'))"
  using Encode_Some_lengths [of depth input art] Encode_returns [of input depth]
  by blast

theorem Encode_codeword_lengths_witness:
  "Encode 3 ''aaaabbbc'' =
       Some \<lparr>art_tsize = 3,
             art_rows = [(CHR ''a'', Float (1 / 2), ''0''), (CHR ''b'', Float (3 / 8), ''10''),
                         (CHR ''c'', Float (1 / 8), ''11'')],
             art_bits = ''000010101011''\<rparr>
   \<and> 2 \<le> card (set ''aaaabbbc'')
   \<and> 1 \<le> length ''0'' \<and> 1 \<le> length ''10'' \<and> 1 \<le> length ''11''
   \<and> ''aaaabbbc'' \<noteq> []
   \<and> balanced (Encode_ptable ''aaaabbbc'') 0 (int (length (Encode_ptable ''aaaabbbc'')) - 1)
   \<and> card (set ''aaaabbbc'') \<le> 3
   \<and> (\<exists>art'. Encode 3 ''aaaabbbc'' = Some art')"
proof -
  let ?art = "\<lparr>art_tsize = 3,
             art_rows = [(CHR ''a'', Float (1 / 2), ''0''), (CHR ''b'', Float (3 / 8), ''10''),
                         (CHR ''c'', Float (1 / 8), ''11'')],
             art_bits = ''000010101011''\<rparr>"
  have c: "card (set ''aaaabbbc'') = 3" by code_simp
  have ne: "''aaaabbbc'' \<noteq> []" by simp
  have bal: "balanced (Encode_ptable ''aaaabbbc'') 0 (int (length (Encode_ptable ''aaaabbbc'')) - 1)"
    using balanced_aaaabbbc by (simp add: length_Encode_ptable c)
  note inst = Encode_codeword_lengths [of 3 "''aaaabbbc''" ?art]
  from inst Encode_aaaabbbc c
  have len: "1 \<le> length ''0'' \<and> 1 \<le> length ''10'' \<and> 1 \<le> length ''11''"
    by simp
  from c have two: "2 \<le> card (set ''aaaabbbc'')" and three: "card (set ''aaaabbbc'') \<le> 3"
    by simp_all
  from inst ne bal three have ret: "\<exists>art'. Encode 3 ''aaaabbbc'' = Some art'"
    by blast
  show ?thesis
    by (intro conjI Encode_aaaabbbc two ne bal three ret)
      (simp_all only: conjunct1 [OF len] conjunct1 [OF conjunct2 [OF len]]
                      conjunct2 [OF conjunct2 [OF len]])
qed

text \<open>
  Claim C4 as stated fails on an alphabet of one symbol: for the input \<open>zzzz\<close> the table has
  the one row of \<open>z\<close>, with probability 1 and the empty codeword. (The depth 8 stands for
  any depth from 1 on.)
\<close>

theorem Encode_single_symbol_counterexample:
  "map_option art_rows (Encode 8 ''zzzz'') = Some [(CHR ''z'', Float 1, [])]"
  by (simp add: Encode_zzzz)

text \<open>
  Claim C1 (round trip), as the code has it. For every input with two distinct symbols or
  more on which \<^verbatim>\<open>Encode\<close> returns, \<^verbatim>\<open>Decode\<close> of the artifact is the input; for an
  input with one distinct symbol, \<^verbatim>\<open>Decode\<close> of the artifact is empty. And
  \<^verbatim>\<open>Encode\<close> does return on every non-empty input whose table is balanced, given a
  depth of recursion of the number of distinct symbols.
\<close>

theorem Decode_Encode:
  "(Encode depth input = Some art \<longrightarrow>
      (2 \<le> card (set input) \<longrightarrow> Decode art = input)
      \<and> (card (set input) = 1 \<longrightarrow> Decode art = []))
   \<and> (input \<noteq> []
        \<and> balanced (Encode_ptable input) 0 (int (length (Encode_ptable input)) - 1)
        \<and> card (set input) \<le> depth \<longrightarrow>
      (\<exists>art'. Encode depth input = Some art'))"
proof (intro conjI impI)
  assume "input \<noteq> []
        \<and> balanced (Encode_ptable input) 0 (int (length (Encode_ptable input)) - 1)
        \<and> card (set input) \<le> depth"
  then show "\<exists>art'. Encode depth input = Some art'"
    using Encode_returns [of input depth] by blast
next
  assume enc: "Encode depth input = Some art" and one: "card (set input) = 1"
  from Encode_Some_rows [OF enc] one obtain cw where
    bits: "art_bits art = concat (map cw input)" and empty: "\<forall>c. cw c = []"
    by blast
  from empty have "concat (map cw input) = []" by simp
  with bits show "Decode art = []"
    by (simp add: Decode_def Decode_loop_def until_EOF_def)
next
  assume enc: "Encode depth input = Some art" and two: "2 \<le> card (set input)"
  from Encode_Some_rows [OF enc] two obtain cw where
    tsize: "art_tsize art = int (length (art_rows art))"
    and bits: "art_bits art = concat (map cw input)"
    and keys: "fst ` set (art_rows art) = set input"
    and fun_rows: "\<forall>(c, pr, w) \<in> set (art_rows art). w = cw c"
    and zo: "\<forall>c \<in> set input. set (cw c) \<subseteq> {CHR ''0'', CHR ''1''}"
    and pf: "\<forall>c1 \<in> set input. \<forall>c2 \<in> set input. c1 \<noteq> c2 \<longrightarrow> \<not> prefix (cw c1) (cw c2)"
    and ne: "\<forall>c \<in> set input. cw c \<noteq> []"
    by blast
  let ?rows = "art_rows art"
  define table where "table = load_codes (art_tsize art) ?rows"
  have table: "table = fold (\<lambda>(c, pr, code) codes. map_put c code codes) ?rows []"
    unfolding table_def tsize by (rule load_codes_all)
  have dk: "distinct (map fst table)"
    unfolding table by (rule key_sorted_distinct, rule load_step_sorted) (simp add: key_sorted_def)
  have entry: "c \<in> set input \<and> w = cw c" if "(c, w) \<in> set table" for c w
  proof -
    from that load_step_set [of ?rows "[]"] have "(c, w) \<in> (\<lambda>(c, pr, code). (c, code)) ` set ?rows"
      unfolding table by auto
    then obtain pr where r: "(c, pr, w) \<in> set ?rows" by auto
    with fun_rows have "w = cw c" by auto
    moreover from r keys have "c \<in> set input" by force
    ultimately show ?thesis by simp
  qed
  have has: "(c, cw c) \<in> set table" if "c \<in> set input" for c
  proof -
    from that keys have "c \<in> fst ` set ?rows" by simp
    with load_step_map_of [OF fun_rows, of "[]" c] have "map_of table c = Some (cw c)"
      unfolding table by simp
    then show ?thesis by (rule map_of_SomeD)
  qed
  have cs: "c_strings table"
    unfolding c_strings_def
  proof (intro ballI, clarify)
    fix c w assume "(c, w) \<in> set table"
    from entry [OF this] ne zo show "w \<noteq> [] \<and> CHR 0x00 \<notin> set w" by auto
  qed
  have pfree: "prefix_free table"
    unfolding prefix_free_def
  proof (intro ballI, clarify)
    fix c1 w1 c2 w2
    assume "(c1, w1) \<in> set table" "(c2, w2) \<in> set table" "c1 \<noteq> c2" "prefix w1 w2"
    with entry [of c1 w1] entry [of c2 w2] pf show False by auto
  qed
  have "set (concat (map cw input)) \<subseteq> {CHR ''0'', CHR ''1''}"
    using zo by auto
  then have eof: "until_EOF (concat (map cw input)) = concat (map cw input)"
    by (rule until_EOF_bits)
  from decode_concat [OF cs dk pfree, of input cw "[]"] has
  have "fold (Decode_step table) (concat (map cw input)) ([], []) = ([], input)"
    by simp
  then show "Decode art = input"
    by (simp add: Decode_def Decode_loop_def eof bits table_def)
qed

theorem Decode_Encode_witness:
  "Encode 6 ''aaabbbcccdef'' =
     Some \<lparr>art_tsize = 6,
           art_rows = [(CHR ''a'', Float (1 / 4), ''0''), (CHR ''b'', Float (1 / 4), ''10''),
                       (CHR ''c'', Float (1 / 4), ''110''),
                       (CHR ''d'', Float (11184811 / 134217728), ''1110''),
                       (CHR ''e'', Float (11184811 / 134217728), ''11110''),
                       (CHR ''f'', Float (11184811 / 134217728), ''11111'')],
           art_bits = ''00010101011011011011101111011111''\<rparr>
   \<and> 2 \<le> card (set ''aaabbbcccdef'')
   \<and> Decode \<lparr>art_tsize = 6,
           art_rows = [(CHR ''a'', Float (1 / 4), ''0''), (CHR ''b'', Float (1 / 4), ''10''),
                       (CHR ''c'', Float (1 / 4), ''110''),
                       (CHR ''d'', Float (11184811 / 134217728), ''1110''),
                       (CHR ''e'', Float (11184811 / 134217728), ''11110''),
                       (CHR ''f'', Float (11184811 / 134217728), ''11111'')],
           art_bits = ''00010101011011011011101111011111''\<rparr> = ''aaabbbcccdef''
   \<and> ''aaaabbbc'' \<noteq> []
   \<and> balanced (Encode_ptable ''aaaabbbc'') 0 (int (length (Encode_ptable ''aaaabbbc'')) - 1)
   \<and> card (set ''aaaabbbc'') \<le> 3
   \<and> (\<exists>art'. Encode 3 ''aaaabbbc'' = Some art' \<and> Decode art' = ''aaaabbbc'')"
proof -
  let ?art = "\<lparr>art_tsize = 6,
           art_rows = [(CHR ''a'', Float (1 / 4), ''0''), (CHR ''b'', Float (1 / 4), ''10''),
                       (CHR ''c'', Float (1 / 4), ''110''),
                       (CHR ''d'', Float (11184811 / 134217728), ''1110''),
                       (CHR ''e'', Float (11184811 / 134217728), ''11110''),
                       (CHR ''f'', Float (11184811 / 134217728), ''11111'')],
           art_bits = ''00010101011011011011101111011111''\<rparr>"
  have c6: "card (set ''aaabbbcccdef'') = 6" by code_simp
  then have two6: "2 \<le> card (set ''aaabbbcccdef'')" by simp
  from Decode_Encode [of 6 "''aaabbbcccdef''" ?art] Encode_aaabbbcccdef two6
  have dec6: "Decode ?art = ''aaabbbcccdef''" by blast
  have c3: "card (set ''aaaabbbc'') = 3" by code_simp
  then have two3: "2 \<le> card (set ''aaaabbbc'')" and d3: "card (set ''aaaabbbc'') \<le> 3"
    by simp_all
  have ne: "''aaaabbbc'' \<noteq> []" by simp
  have bal: "balanced (Encode_ptable ''aaaabbbc'') 0 (int (length (Encode_ptable ''aaaabbbc'')) - 1)"
    using balanced_aaaabbbc by (simp add: length_Encode_ptable c3)
  from Decode_Encode [of 3 "''aaaabbbc''"] ne bal d3
  obtain art' where enc3: "Encode 3 ''aaaabbbc'' = Some art'" by blast
  from Decode_Encode [of 3 "''aaaabbbc''" art'] enc3 two3
  have "Decode art' = ''aaaabbbc''" by blast
  with enc3 have ret: "\<exists>art'. Encode 3 ''aaaabbbc'' = Some art' \<and> Decode art' = ''aaaabbbc''"
    by blast
  show ?thesis
    by (intro conjI Encode_aaabbbcccdef two6 dec6 ne bal d3 ret)
qed

text \<open>
  Claim C1 as stated fails on an alphabet of one symbol: for the input \<open>zzzz\<close> the codeword
  of \<open>z\<close> is empty, so the bitstream is empty, the decoding loop runs zero times and the
  output is empty. (In the file, \<^verbatim>\<open>fscanf\<close> finds no codeword to read in the row of
  \<open>z\<close>; whatever the table then holds, no bit is read against it.)
\<close>

theorem Decode_Encode_single_symbol_counterexample:
  "Encode 8 ''zzzz''
     = Some \<lparr>art_tsize = 1, art_rows = [(CHR ''z'', Float 1, [])], art_bits = []\<rparr>
   \<and> Decode \<lparr>art_tsize = 1, art_rows = [(CHR ''z'', Float 1, [])], art_bits = []\<rparr> = []
   \<and> [] \<noteq> ''zzzz''"
  by (simp add: Encode_zzzz Decode_def Decode_loop_def until_EOF_def)

end
